theory Spec2Isabelle
  imports Main "HOL-Library.Char_ord" "HOL-Library.List_Lexorder"
begin

section \<open>Values and records of the synchronisation engine\<close>

text \<open>
  The engine of \<^verbatim>\<open>src/js/sync-manager.js\<close> treats a record as an object with an
  \<^verbatim>\<open>id\<close>, two optional time stamps and further fields it never looks at
  (\<open>content\<close>). A time stamp field holds a JavaScript number or string; \<open>None\<close> stands
  for a field that is \<^verbatim>\<open>undefined\<close> or \<^verbatim>\<open>null\<close>. An empty \<open>item_id\<close> stands for
  a missing id.
\<close>

datatype tsval = Num int | Str string

record item =
  item_id :: string
  updatedAt :: "tsval option"
  createdAt :: "tsval option"
  content :: string

text \<open>Errors raised by the code, as values. The string is \<^verbatim>\<open>error.message\<close>.\<close>

datatype error = TypeError string | Error string

fun message :: "error \<Rightarrow> string" where
  "message (TypeError m) = m"
| "message (Error m) = m"

subsection \<open>JavaScript primitives used by the resolver\<close>

text \<open>Truthiness of a time stamp field, as \<^verbatim>\<open>||\<close> tests it.\<close>

fun truthy :: "tsval option \<Rightarrow> bool" where
  "truthy None = False"
| "truthy (Some (Num n)) = (n \<noteq> 0)"
| "truthy (Some (Str s)) = (s \<noteq> [])"

text \<open>
  \<^verbatim>\<open>new Date(v).getTime()\<close>: a time value in milliseconds, or \<open>None\<close> for
  \<^verbatim>\<open>NaN\<close> (an invalid date). A number is its own time value when it lies in the range of
  \<^verbatim>\<open>Date\<close>; a string goes through the platform's date parser, which is the parameter
  \<open>parse\<close>.
\<close>

fun getTime :: "(string \<Rightarrow> int option) \<Rightarrow> tsval \<Rightarrow> int option" where
  "getTime parse (Num n) = (if \<bar>n\<bar> \<le> 8640000000000000 then Some n else None)"
| "getTime parse (Str s) = parse s"

text \<open>\<^verbatim>\<open>a > b\<close> on two time values: false as soon as one of them is \<^verbatim>\<open>NaN\<close>.\<close>

fun js_gt :: "int option \<Rightarrow> int option \<Rightarrow> bool" where
  "js_gt (Some a) (Some b) = (a > b)"
| "js_gt _ _ = False"

text \<open>\<^verbatim>\<open>x.updatedAt || x.createdAt || 0\<close>\<close>

definition stamp :: "item \<Rightarrow> tsval" where
  "stamp x =
     (if truthy (updatedAt x) then (case updatedAt x of Some v \<Rightarrow> v | None \<Rightarrow> Num 0)
      else if truthy (createdAt x) then (case createdAt x of Some v \<Rightarrow> v | None \<Rightarrow> Num 0)
      else Num 0)"

text \<open>
  The reading of the specification, \<^verbatim>\<open>updatedAt ?? createdAt ?? 0\<close>: the first field
  that is present, whatever its value. It is used only to compare with \<open>stamp\<close>.
\<close>

definition stamp_spec :: "item \<Rightarrow> tsval" where
  "stamp_spec x =
     (case updatedAt x of Some v \<Rightarrow> v
      | None \<Rightarrow> (case createdAt x of Some v \<Rightarrow> v | None \<Rightarrow> Num 0))"

section \<open>Conflict resolver\<close>

text \<open>
  \<^verbatim>\<open>resolveConflict(local, remote, type)\<close> switches on the field
  \<^verbatim>\<open>this.conflictResolutionStrategy\<close>, here the argument \<open>strategy\<close>. The class
  \<^verbatim>\<open>EnhancedSyncManager\<close> declares no method \<^verbatim>\<open>queueConflict\<close> and nothing in the
  repository adds one, so the call in the \<^verbatim>\<open>'manual'\<close> branch raises a
  \<^verbatim>\<open>TypeError\<close> before the \<^verbatim>\<open>return local\<close> that follows it.
\<close>

definition resolveConflict ::
  "(string \<Rightarrow> int option) \<Rightarrow> string \<Rightarrow> item \<Rightarrow> item \<Rightarrow> string \<Rightarrow> error + item" where
  "resolveConflict parse strategy local remote type =
     (if strategy = ''last-write-wins'' then
        (let localTime = getTime parse (stamp local);
             remoteTime = getTime parse (stamp remote)
         in Inr (if js_gt localTime remoteTime then local else remote))
      else if strategy = ''remote-wins'' then Inr remote
      else if strategy = ''local-wins'' then Inr local
      else if strategy = ''manual'' then Inl (TypeError ''this.queueConflict is not a function'')
      else Inr local)"

section \<open>Merge engine\<close>

text \<open>
  A JavaScript \<^verbatim>\<open>Map\<close> (and an object used as a dictionary) keeps its keys in insertion
  order; \<^verbatim>\<open>set\<close> on a key that exists replaces the value where it stands. The keys
  of the objects are member codes (UUIDs) and the names of the collections, never the
  name of a property that every object inherits.
\<close>

type_synonym 'v jsmap = "(string \<times> 'v) list"

fun Map_set :: "string \<Rightarrow> 'v \<Rightarrow> 'v jsmap \<Rightarrow> 'v jsmap" where
  "Map_set k v [] = [(k, v)]"
| "Map_set k v ((k', v') # m) = (if k' = k then (k, v) # m else (k', v') # Map_set k v m)"

definition Map_get :: "'v jsmap \<Rightarrow> string \<Rightarrow> 'v option" where
  "Map_get m k = map_of m k"

text \<open>\<^verbatim>\<open>local.forEach(item => merged.set(item.id, item))\<close>\<close>

fun add_local :: "item list \<Rightarrow> item jsmap \<Rightarrow> item jsmap" where
  "add_local [] merged = merged"
| "add_local (x # xs) merged = add_local xs (Map_set (item_id x) x merged)"

text \<open>
  The second \<^verbatim>\<open>forEach\<close>, over the remote items. A stored item is an object, hence truthy,
  so \<^verbatim>\<open>!localItem\<close> holds exactly when the key is absent. An exception of the resolver
  leaves the loop and the function.
\<close>

fun merge_remote ::
  "(string \<Rightarrow> int option) \<Rightarrow> string \<Rightarrow> string \<Rightarrow> item list \<Rightarrow> item jsmap \<Rightarrow> error + item jsmap" where
  "merge_remote parse strategy type [] merged = Inr merged"
| "merge_remote parse strategy type (remoteItem # rs) merged =
     (case Map_get merged (item_id remoteItem) of
        None \<Rightarrow> merge_remote parse strategy type rs (Map_set (item_id remoteItem) remoteItem merged)
      | Some localItem \<Rightarrow>
          (case resolveConflict parse strategy localItem remoteItem type of
             Inl e \<Rightarrow> Inl e
           | Inr resolvedItem \<Rightarrow>
               merge_remote parse strategy type rs (Map_set (item_id remoteItem) resolvedItem merged)))"

text \<open>\<^verbatim>\<open>mergeCollection(local, remote, type)\<close>, ending in \<^verbatim>\<open>Array.from(merged.values())\<close>.\<close>

definition mergeCollection ::
  "(string \<Rightarrow> int option) \<Rightarrow> string \<Rightarrow> item list \<Rightarrow> item list \<Rightarrow> string \<Rightarrow> error + item list" where
  "mergeCollection parse strategy local remote type =
     (case merge_remote parse strategy type remote (add_local local []) of
        Inl e \<Rightarrow> Inl e
      | Inr merged \<Rightarrow> Inr (map snd merged))"

text \<open>
  An invariant of the map under construction: its keys are distinct and every entry is
  filed under the id of its item.
\<close>

definition keyed :: "item jsmap \<Rightarrow> bool" where
  "keyed m = (distinct (map fst m) \<and> list_all (\<lambda>(k, v). item_id v = k) m)"

section \<open>Vector clocks\<close>

text \<open>
  A counter is a JavaScript number: an integer or \<^verbatim>\<open>NaN\<close>. A clock is an object from
  member codes to counters, with its keys in insertion order.
\<close>

datatype jsnum = N int | NaN

text \<open>\<^verbatim>\<open>!this.vectorClock[member]\<close>: true for a missing entry, for 0 and for \<^verbatim>\<open>NaN\<close>.\<close>

fun falsy :: "jsnum option \<Rightarrow> bool" where
  "falsy None = True"
| "falsy (Some (N n)) = (n = 0)"
| "falsy (Some NaN) = True"

text \<open>\<^verbatim>\<open>clock > this.vectorClock[member]\<close>\<close>

fun num_gt :: "jsnum \<Rightarrow> jsnum option \<Rightarrow> bool" where
  "num_gt (N a) (Some (N b)) = (a > b)"
| "num_gt _ _ = False"

text \<open>
  The body of the \<^verbatim>\<open>forEach\<close> over \<^verbatim>\<open>Object.entries(remoteData.vectorClock || {})\<close> in
  \<^verbatim>\<open>mergeData\<close>, and the whole loop: the merge of the manager's clock with a remote one.
\<close>

definition merge_clock_entry :: "string \<times> jsnum \<Rightarrow> jsnum jsmap \<Rightarrow> jsnum jsmap" where
  "merge_clock_entry e vc =
     (case e of (member, clock) \<Rightarrow>
        if falsy (Map_get vc member) \<or> num_gt clock (Map_get vc member)
        then Map_set member clock vc else vc)"

definition mergeClocks :: "jsnum jsmap \<Rightarrow> jsnum jsmap \<Rightarrow> jsnum jsmap" where
  "mergeClocks vc remote = fold merge_clock_entry remote vc"

text \<open>
  A valid clock: an object (distinct keys) whose counters are non-negative integers.
  \<open>counter c k\<close> is \<^verbatim>\<open>c[k] ?? 0\<close>.
\<close>

fun counter_ok :: "string \<times> jsnum \<Rightarrow> bool" where
  "counter_ok (k, N n) = (0 \<le> n)"
| "counter_ok (k, NaN) = False"

definition valid_clock :: "jsnum jsmap \<Rightarrow> bool" where
  "valid_clock c = (distinct (map fst c) \<and> list_all counter_ok c)"

definition counter :: "jsnum jsmap \<Rightarrow> string \<Rightarrow> int" where
  "counter c k = (case map_of c k of Some (N n) \<Rightarrow> n | _ \<Rightarrow> 0)"

section \<open>Snapshots, the remote document and the environment\<close>

text \<open>
  A snapshot is the object built by \<^verbatim>\<open>getLocalData\<close>: one array per collection (an
  object, so an association list in key order), the clock, \<^verbatim>\<open>lastModified\<close> and the
  member code. A snapshot read from the remote document may lack any collection and the
  clock.
\<close>

record snapshot =
  collections :: "item list jsmap"
  snap_vectorClock :: "jsnum jsmap option"
  lastModified :: "string option"
  snap_memberCode :: string

text \<open>
  \<^verbatim>\<open>SecurityManager.encrypt\<close> and \<^verbatim>\<open>decrypt\<close> (AES over the JSON text), taken
  symbolically: a cipher text opens under the key it was made with and under no other;
  \<^verbatim>\<open>decrypt\<close> catches every failure and returns \<^verbatim>\<open>null\<close>.
\<close>

datatype cipher = Cipher string snapshot

definition encrypt :: "snapshot \<Rightarrow> string \<Rightarrow> cipher" where
  "encrypt plain key = Cipher key plain"

fun decrypt :: "cipher option \<Rightarrow> string \<Rightarrow> snapshot option" where
  "decrypt (Some (Cipher k plain)) key = (if k = key then Some plain else None)"
| "decrypt None key = None"

text \<open>
  The content of the file \<^verbatim>\<open>family-finance-data.json\<close> of the gist: text that
  \<^verbatim>\<open>JSON.parse\<close> rejects, or an object with the flag \<^verbatim>\<open>encrypted\<close>, the field
  \<^verbatim>\<open>data\<close> and the fields of a snapshot beside them.
\<close>

datatype document = Unparseable | Doc bool "cipher option" snapshot

text \<open>An entry of the operation queue, as \<^verbatim>\<open>queueOperation\<close> builds it.\<close>

record queue_item =
  op_id :: string
  op_timestamp :: int
  op_memberCode :: string
  operation :: "string option"
  op_vectorClock :: "jsnum jsmap"
  status :: string
  op_error :: "string option"
  retryCount :: "int option"

text \<open>
  What the platform answers during one call of the manager: \<^verbatim>\<open>navigator.onLine\<close>, the
  clock (\<^verbatim>\<open>new Date()\<close>, \<^verbatim>\<open>Date.now()\<close>; one reading for the call), the date parser
  and printer, the next \<^verbatim>\<open>generateUUID()\<close>, whether \<^verbatim>\<open>window.appContext\<close> exists, the
  fate of each IndexedDB call (it succeeds, throws while the transaction is opened, or its
  request fires \<^verbatim>\<open>onerror\<close>), and the fate of the two \<^verbatim>\<open>fetch\<close> calls (a network
  failure, or a response with its status and whether its body is JSON).
\<close>

datatype db_call =
  DbInit | DbGetAll string | DbSave string | DbSaveBatch string | DbDelete string | DbClear string

datatype db_outcome = Succeeds | Throws string | Rejects string

datatype fetch_outcome = NetworkFailure string | Response nat bool

record env =
  onLine :: bool
  now :: int
  parse_date :: "string \<Rightarrow> int option"
  toISOString :: "int \<Rightarrow> string"
  uuid :: string
  appContext :: bool
  db_result :: "db_call \<Rightarrow> db_outcome"
  fetch_get :: fetch_outcome
  fetch_patch :: fetch_outcome

text \<open>
  The state: the fields of \<^verbatim>\<open>EnhancedSyncManager\<close>, the queue entries as objects in a
  store (\<open>syncQueue\<close> holds references, since \<^verbatim>\<open>processSyncQueue\<close> mutates the entries
  through a second array), and the collaborators: the IndexedDB stores (rows in key order),
  the gist's file and the status last shown to the host application.
\<close>

record world =
  syncInProgress :: bool
  conflictResolutionStrategy :: string
  vectorClock :: "jsnum jsmap"
  syncQueue :: "nat list"
  ops :: "nat \<Rightarrow> queue_item"
  allocated :: nat
  lastSyncTime :: "int option"
  familyCode :: string
  memberCode :: string
  gistId :: "string option"
  db_open :: bool
  db :: "string \<Rightarrow> item list"
  db_syncQueue :: "queue_item list"
  remote_doc :: "document option"
  syncStatus :: "string option"

text \<open>
  \<^verbatim>\<open>await\<close>: the rest of an \<^verbatim>\<open>async\<close> function runs on the value of a fulfilled
  promise; a rejection leaves the function. A call is followed to its end; a call that
  arrives in between meets the state in which \<^verbatim>\<open>syncInProgress\<close> is set.
\<close>

definition and_then ::
  "world \<times> (error + 'a) \<Rightarrow> (world \<Rightarrow> 'a \<Rightarrow> world \<times> (error + 'b)) \<Rightarrow> world \<times> (error + 'b)" where
  "and_then r k = (case r of (w, Inl err) \<Rightarrow> (w, Inl err) | (w, Inr x) \<Rightarrow> k w x)"

definition dataTypes :: "string list" where
  "dataTypes = [''transactions'', ''budgets'', ''savingsGoals'', ''billReminders'', ''accounts'',
     ''investments'', ''shoppingLists'', ''familyTasks'', ''sharedNotes'', ''settings'',
     ''activityFeed'']"

subsection \<open>IndexedDBManager\<close>

text \<open>
  The methods of \<^verbatim>\<open>IndexedDBManager\<close> (in \<^verbatim>\<open>src/js/security-manager.js\<close>) that the
  sync manager calls, always without an encryption key. Each begins with
  \<^verbatim>\<open>if (!this.db) await this.init()\<close>.
\<close>

definition stores :: "string list" where
  "stores = [''transactions'', ''budgets'', ''savingsGoals'', ''billReminders'', ''accounts'',
     ''investments'', ''shoppingLists'', ''familyTasks'', ''sharedNotes'', ''settings'',
     ''syncQueue'', ''activityFeed'']"

definition db_init :: "env \<Rightarrow> world \<Rightarrow> world \<times> (error + unit)" where
  "db_init e w =
     (case db_result e DbInit of
        Succeeds \<Rightarrow> (w\<lparr>db_open := True\<rparr>, Inr ())
      | Throws m \<Rightarrow> (w, Inl (Error m))
      | Rejects m \<Rightarrow> (w, Inl (Error m)))"

definition ensure_open :: "env \<Rightarrow> world \<Rightarrow> world \<times> (error + unit)" where
  "ensure_open e w = (if db_open w then (w, Inr ()) else db_init e w)"

text \<open>\<^verbatim>\<open>getAll\<close> catches an exception of the transaction and answers \<^verbatim>\<open>[]\<close>.\<close>

definition getAll :: "env \<Rightarrow> string \<Rightarrow> world \<Rightarrow> world \<times> (error + item list)" where
  "getAll e storeName w =
     and_then (ensure_open e w) (\<lambda>w _.
       case db_result e (DbGetAll storeName) of
         Succeeds \<Rightarrow> (w, Inr (db w storeName))
       | Throws m \<Rightarrow> (w, Inr [])
       | Rejects m \<Rightarrow> (w, Inl (Error m)))"

text \<open>\<^verbatim>\<open>store.put\<close> on a store with key path \<^verbatim>\<open>id\<close>: the row replaces the one of its key.\<close>

definition db_put :: "item \<Rightarrow> item list \<Rightarrow> item list" where
  "db_put x rows = insort_key item_id x (filter (\<lambda>r. item_id r \<noteq> item_id x) rows)"

text \<open>
  What \<^verbatim>\<open>saveBatch\<close> does to each item before it puts it: an id if there is none,
  \<^verbatim>\<open>createdAt\<close> if there is none, and \<^verbatim>\<open>updatedAt\<close> always. The items are changed in
  place, so the caller's array holds the changed items afterwards: \<open>saveBatch\<close> returns
  them. The requests of \<^verbatim>\<open>put\<close> are not promises, so \<^verbatim>\<open>Promise.all\<close> is fulfilled
  whether they succeed or not; a failed request aborts the transaction and leaves the store
  as it was.
\<close>

definition prepare :: "env \<Rightarrow> item \<Rightarrow> item" where
  "prepare e x =
     x\<lparr>item_id := (if item_id x = [] then uuid e else item_id x),
       createdAt := (if truthy (createdAt x) then createdAt x
                     else Some (Str (toISOString e (now e)))),
       updatedAt := Some (Str (toISOString e (now e)))\<rparr>"

definition saveBatch ::
  "env \<Rightarrow> string \<Rightarrow> item list \<Rightarrow> world \<Rightarrow> world \<times> (error + item list)" where
  "saveBatch e storeName items w =
     and_then (ensure_open e w) (\<lambda>w _.
       case db_result e (DbSaveBatch storeName) of
         Throws m \<Rightarrow> (w, Inl (Error m))
       | Succeeds \<Rightarrow>
           (w\<lparr>db := (db w)(storeName := fold db_put (map (prepare e) items) (db w storeName))\<rparr>,
            Inr (map (prepare e) items))
       | Rejects m \<Rightarrow> (w, Inr (map (prepare e) items)))"

definition clear :: "env \<Rightarrow> string \<Rightarrow> world \<Rightarrow> world \<times> (error + unit)" where
  "clear e storeName w =
     and_then (ensure_open e w) (\<lambda>w _.
       case db_result e (DbClear storeName) of
         Succeeds \<Rightarrow> (w\<lparr>db := (db w)(storeName := [])\<rparr>, Inr ())
       | Throws m \<Rightarrow> (w, Inl (Error m))
       | Rejects m \<Rightarrow> (w, Inl (Error m)))"

text \<open>\<^verbatim>\<open>save('syncQueue', queueItem)\<close> and \<^verbatim>\<open>delete('syncQueue', id)\<close>.\<close>

definition save_syncQueue :: "env \<Rightarrow> queue_item \<Rightarrow> world \<Rightarrow> world \<times> (error + unit)" where
  "save_syncQueue e q w =
     and_then (ensure_open e w) (\<lambda>w _.
       case db_result e (DbSave ''syncQueue'') of
         Succeeds \<Rightarrow>
           (w\<lparr>db_syncQueue := filter (\<lambda>r. op_id r \<noteq> op_id q) (db_syncQueue w) @ [q]\<rparr>, Inr ())
       | Throws m \<Rightarrow> (w, Inl (Error m))
       | Rejects m \<Rightarrow> (w, Inl (Error m)))"

definition delete_syncQueue :: "env \<Rightarrow> string \<Rightarrow> world \<Rightarrow> world \<times> (error + unit)" where
  "delete_syncQueue e k w =
     and_then (ensure_open e w) (\<lambda>w _.
       case db_result e (DbDelete ''syncQueue'') of
         Succeeds \<Rightarrow> (w\<lparr>db_syncQueue := filter (\<lambda>r. op_id r \<noteq> k) (db_syncQueue w)\<rparr>, Inr ())
       | Throws m \<Rightarrow> (w, Inl (Error m))
       | Rejects m \<Rightarrow> (w, Inl (Error m)))"

section \<open>EnhancedSyncManager\<close>

subsection \<open>Operation queue\<close>

text \<open>\<^verbatim>\<open>this.vectorClock[this.memberCode]++\<close>: a missing entry becomes \<^verbatim>\<open>NaN\<close>.\<close>

definition bump :: "string \<Rightarrow> jsnum jsmap \<Rightarrow> jsnum jsmap" where
  "bump member vc =
     Map_set member (case Map_get vc member of Some (N n) \<Rightarrow> N (n + 1) | _ \<Rightarrow> NaN) vc"

text \<open>
  \<^verbatim>\<open>syncOperation(operation)\<close> on the queue entry at reference \<open>r\<close>. It sends nothing;
  it raises only when the entry has no payload, at \<^verbatim>\<open>operation.operation.type\<close>, after
  the clock has been advanced.
\<close>

definition syncOperation :: "env \<Rightarrow> nat \<Rightarrow> world \<Rightarrow> world \<times> (error + unit)" where
  "syncOperation e r w =
     (let vc = bump (memberCode w) (vectorClock w);
          w1 = w\<lparr>vectorClock := vc, ops := (ops w)(r := (ops w r)\<lparr>op_vectorClock := vc\<rparr>)\<rparr>
      in case operation (ops w1 r) of
           None \<Rightarrow> (w1, Inl (TypeError ''operation.operation is undefined''))
         | Some payload \<Rightarrow> (w1, Inr ()))"

text \<open>\<^verbatim>\<open>this.syncQueue = this.syncQueue.filter(item => item.id !== op.id)\<close>\<close>

definition remove_op :: "nat \<Rightarrow> world \<Rightarrow> world" where
  "remove_op r w =
     w\<lparr>syncQueue := filter (\<lambda>i. op_id (ops w i) \<noteq> op_id (ops w r)) (syncQueue w)\<rparr>"

text \<open>
  The body of the loop of \<^verbatim>\<open>processSyncQueue\<close>: the \<^verbatim>\<open>try\<close> block (\<open>attempt_op\<close>) and
  the \<^verbatim>\<open>catch\<close> block around it (\<open>process_op\<close>), which also catches a failure of the
  delete in IndexedDB.
\<close>

definition attempt_op :: "env \<Rightarrow> nat \<Rightarrow> world \<Rightarrow> world \<times> (error + unit)" where
  "attempt_op e r w =
     and_then (syncOperation e r w) (\<lambda>w _.
       let w1 = w\<lparr>ops := (ops w)(r := (ops w r)\<lparr>status := ''completed''\<rparr>)\<rparr>;
           w2 = remove_op r w1
       in if db_open w2 then delete_syncQueue e (op_id (ops w2 r)) w2 else (w2, Inr ()))"

definition process_op :: "env \<Rightarrow> nat \<Rightarrow> world \<Rightarrow> world" where
  "process_op e r w =
     (case attempt_op e r w of
        (w1, Inr _) \<Rightarrow> w1
      | (w1, Inl err) \<Rightarrow>
          (let count = (case retryCount (ops w1 r) of None \<Rightarrow> 0 | Some n \<Rightarrow> n) + 1;
               w2 = w1\<lparr>ops := (ops w1)(r := (ops w1 r)
                      \<lparr>status := ''failed'', op_error := Some (message err),
                       retryCount := Some count\<rparr>)\<rparr>
           in if count > 3 then remove_op r w2 else w2))"

text \<open>
  \<^verbatim>\<open>processSyncQueue()\<close>. The promise is always fulfilled: every exception of the loop
  is caught inside it.
\<close>

definition processSyncQueue :: "env \<Rightarrow> world \<Rightarrow> world \<times> (error + unit)" where
  "processSyncQueue e w =
     (if syncQueue w = [] \<or> syncInProgress w then (w, Inr ())
      else
        (let w1 = w\<lparr>syncInProgress := True\<rparr>;
             pendingOps = filter (\<lambda>r. status (ops w1 r) = ''pending'') (syncQueue w1)
         in ((fold (process_op e) pendingOps w1)\<lparr>syncInProgress := False\<rparr>, Inr ())))"

text \<open>
  \<^verbatim>\<open>queueOperation(operation)\<close>. The save in IndexedDB is awaited outside any
  \<^verbatim>\<open>try\<close>; the drain that follows is started and not awaited.
\<close>

definition queueOperation :: "env \<Rightarrow> string option \<Rightarrow> world \<Rightarrow> world \<times> (error + unit)" where
  "queueOperation e payload w =
     (let queueItem = \<lparr>op_id = uuid e, op_timestamp = now e, op_memberCode = memberCode w,
                       operation = payload, op_vectorClock = vectorClock w,
                       status = ''pending'', op_error = None, retryCount = None\<rparr>;
          r = allocated w;
          w1 = w\<lparr>ops := (ops w)(r := queueItem), allocated := Suc r,
                 syncQueue := syncQueue w @ [r]\<rparr>
      in and_then (if db_open w1 then save_syncQueue e queueItem w1 else (w1, Inr ())) (\<lambda>w2 _.
           if onLine e \<and> \<not> syncInProgress w2 then (fst (processSyncQueue e w2), Inr ())
           else (w2, Inr ())))"

subsection \<open>Pull, merge, persist, push\<close>

text \<open>\<^verbatim>\<open>getLocalData()\<close>: one \<^verbatim>\<open>getAll\<close> per collection, in the order of the literal.\<close>

fun getAll_each :: "env \<Rightarrow> string list \<Rightarrow> world \<Rightarrow> world \<times> (error + item list jsmap)" where
  "getAll_each e [] w = (w, Inr [])"
| "getAll_each e (t # ts) w =
     and_then (getAll e t w) (\<lambda>w rows.
       and_then (getAll_each e ts w) (\<lambda>w rest. (w, Inr ((t, rows) # rest))))"

definition getLocalData :: "env \<Rightarrow> world \<Rightarrow> world \<times> (error + snapshot)" where
  "getLocalData e w =
     and_then (ensure_open e w) (\<lambda>w _.
       and_then (getAll_each e dataTypes w) (\<lambda>w cs.
         (w, Inr \<lparr>collections = cs, snap_vectorClock = Some (vectorClock w),
                  lastModified = Some (toISOString e (now e)),
                  snap_memberCode = memberCode w\<rparr>)))"

text \<open>
  \<^verbatim>\<open>getRemoteData()\<close>. Both \<^verbatim>\<open>try\<close> blocks end in \<^verbatim>\<open>return null\<close>, so the promise
  is never rejected. It reads the state and does not change it.
\<close>

definition getRemoteData :: "env \<Rightarrow> world \<Rightarrow> error + snapshot option" where
  "getRemoteData e w =
     (case gistId w of
        None \<Rightarrow> Inr None
      | Some g \<Rightarrow>
          (case fetch_get e of
             NetworkFailure m \<Rightarrow> Inr None
           | Response code json \<Rightarrow>
               if \<not> (200 \<le> code \<and> code \<le> 299) then Inr None
               else if \<not> json then Inr None
               else (case remote_doc w of
                       None \<Rightarrow> Inr None
                     | Some Unparseable \<Rightarrow> Inr None
                     | Some (Doc encrypted data plain) \<Rightarrow>
                         if encrypted \<and> familyCode w \<noteq> [] then Inr (decrypt data (familyCode w))
                         else Inr (Some plain))))"

text \<open>
  \<^verbatim>\<open>mergeData(localData, remoteData)\<close>. The clock is merged into \<^verbatim>\<open>this.vectorClock\<close>
  first, so it stays merged when a collection fails to merge afterwards.
\<close>

fun merge_types ::
  "(string \<Rightarrow> int option) \<Rightarrow> string \<Rightarrow> string list \<Rightarrow> snapshot \<Rightarrow> snapshot
     \<Rightarrow> item list jsmap \<Rightarrow> error + item list jsmap" where
  "merge_types parse strategy [] localData remoteData merged = Inr merged"
| "merge_types parse strategy (type # types) localData remoteData merged =
     (case mergeCollection parse strategy
             (case Map_get (collections localData) type of None \<Rightarrow> [] | Some xs \<Rightarrow> xs)
             (case Map_get (collections remoteData) type of None \<Rightarrow> [] | Some xs \<Rightarrow> xs)
             type of
        Inl err \<Rightarrow> Inl err
      | Inr xs \<Rightarrow> merge_types parse strategy types localData remoteData (Map_set type xs merged))"

definition mergeData ::
  "env \<Rightarrow> snapshot \<Rightarrow> snapshot option \<Rightarrow> world \<Rightarrow> world \<times> (error + snapshot)" where
  "mergeData e localData remoteData w =
     (case remoteData of
        None \<Rightarrow> (w, Inr localData)
      | Some rd \<Rightarrow>
          (let w1 = w\<lparr>vectorClock := mergeClocks (vectorClock w)
                          (case snap_vectorClock rd of None \<Rightarrow> [] | Some c \<Rightarrow> c)\<rparr>
           in case merge_types (parse_date e) (conflictResolutionStrategy w1) dataTypes
                     localData rd (collections localData) of
                Inl err \<Rightarrow> (w1, Inl err)
              | Inr cs \<Rightarrow>
                  (w1, Inr (localData\<lparr>collections := cs,
                                      snap_vectorClock := Some (vectorClock w1),
                                      lastModified := Some (toISOString e (now e))\<rparr>))))"

text \<open>
  \<^verbatim>\<open>saveLocalData(data)\<close>: for each array of the snapshot that names a store, clear the
  store and save the array. It returns the snapshot with the items as \<open>saveBatch\<close> left
  them.
\<close>

fun save_entries ::
  "env \<Rightarrow> (string \<times> item list) list \<Rightarrow> world \<Rightarrow> world \<times> (error + item list jsmap)" where
  "save_entries e [] w = (w, Inr [])"
| "save_entries e ((type, items) # rest) w =
     (if type \<in> set stores then
        and_then (clear e type w) (\<lambda>w _.
          and_then (if items \<noteq> [] then saveBatch e type items w else (w, Inr items)) (\<lambda>w items'.
            and_then (save_entries e rest w) (\<lambda>w rest'. (w, Inr ((type, items') # rest')))))
      else and_then (save_entries e rest w) (\<lambda>w rest'. (w, Inr ((type, items) # rest'))))"

definition saveLocalData :: "env \<Rightarrow> snapshot \<Rightarrow> world \<Rightarrow> world \<times> (error + snapshot)" where
  "saveLocalData e data w =
     and_then (ensure_open e w) (\<lambda>w _.
       and_then (save_entries e (collections data) w) (\<lambda>w cs.
         (w, Inr (data\<lparr>collections := cs\<rparr>))))"

text \<open>
  \<^verbatim>\<open>uploadData(data)\<close>: the document carries the snapshot in clear beside its cipher
  text. The access token only adds a header and is left out, and so is the status in the
  message of the error.
\<close>

definition uploadData :: "env \<Rightarrow> snapshot \<Rightarrow> world \<Rightarrow> world \<times> (error + unit)" where
  "uploadData e data w =
     (case gistId w of
        None \<Rightarrow> (w, Inr ())
      | Some g \<Rightarrow>
          (case fetch_patch e of
             NetworkFailure m \<Rightarrow> (w, Inl (TypeError m))
           | Response code json \<Rightarrow>
               if \<not> (200 \<le> code \<and> code \<le> 299) then (w, Inl (Error ''Upload failed''))
               else
                 (let w1 = w\<lparr>remote_doc :=
                             Some (Doc True (Some (encrypt data (familyCode w))) data)\<rparr>
                  in if json then (w1, Inr ()) else (w1, Inl (Error ''Unexpected end of JSON input'')))))"

text \<open>
  \<^verbatim>\<open>syncNow()\<close>: \<open>sync_cycle\<close> is its \<^verbatim>\<open>try\<close> block. The \<^verbatim>\<open>catch\<close> block reports
  the error to the host application and does not raise it again, so the promise is always
  fulfilled.
\<close>

definition setSyncStatus :: "env \<Rightarrow> string \<Rightarrow> world \<Rightarrow> world" where
  "setSyncStatus e s w = (if appContext e then w\<lparr>syncStatus := Some s\<rparr> else w)"

definition sync_cycle :: "env \<Rightarrow> world \<Rightarrow> world \<times> (error + unit)" where
  "sync_cycle e w =
     and_then (processSyncQueue e w) (\<lambda>w _.
       and_then (getLocalData e w) (\<lambda>w localData.
         and_then (case gistId w of None \<Rightarrow> (w, Inr None) | Some g \<Rightarrow> (w, getRemoteData e w))
           (\<lambda>w remoteData.
             and_then (mergeData e localData remoteData w) (\<lambda>w mergedData.
               and_then (saveLocalData e mergedData w) (\<lambda>w mergedData.
                 and_then (case gistId w of None \<Rightarrow> (w, Inr ())
                           | Some g \<Rightarrow> uploadData e mergedData w) (\<lambda>w _.
                   (setSyncStatus e ''success'' (w\<lparr>lastSyncTime := Some (now e)\<rparr>), Inr ())))))))"

definition syncNow :: "env \<Rightarrow> world \<Rightarrow> world \<times> (error + unit)" where
  "syncNow e w =
     (if syncInProgress w \<or> \<not> onLine e then (w, Inr ())
      else
        (case sync_cycle e (setSyncStatus e ''syncing'' (w\<lparr>syncInProgress := True\<rparr>)) of
           (w1, Inr _) \<Rightarrow> (w1\<lparr>syncInProgress := False\<rparr>, Inr ())
         | (w1, Inl err) \<Rightarrow> ((setSyncStatus e ''error'' w1)\<lparr>syncInProgress := False\<rparr>, Inr ())))"


subsection \<open>Calls that overlap\<close>

text \<open>
  The methods are \<^verbatim>\<open>async\<close>: a call runs up to an \<^verbatim>\<open>await\<close> and then gives the thread
  back, so that a timer, the \<^verbatim>\<open>online\<close> event or a click may call \<^verbatim>\<open>syncNow\<close> or
  \<^verbatim>\<open>processSyncQueue\<close> before a cycle or a drain that has started has finished. An
  \<open>activity\<close> is what a started call still has to do. For a drain: the operations of
  \<^verbatim>\<open>pendingOps\<close> the loop has not reached (\<open>Draining\<close>); the operation whose
  \<^verbatim>\<open>syncOperation\<close> is awaited, with its outcome, and the operations after it (\<open>Sent\<close>);
  the operation whose removal from IndexedDB is awaited, and the operations after it
  (\<open>Deleting\<close>). For a cycle: the awaited call of the \<^verbatim>\<open>try\<close> block it has reached, with
  the local variables that call reads.
\<close>

datatype activity =
    Draining "nat list"
  | Sent nat "error + unit" "nat list"
  | Deleting nat "nat list"
  | Cycle_drain
  | Cycle_local
  | Cycle_remote snapshot
  | Cycle_merge snapshot "snapshot option"
  | Cycle_save snapshot
  | Cycle_upload snapshot

text \<open>
  The beginning of a call, which nothing can interrupt: the guard, the assignment
  \<^verbatim>\<open>this.syncInProgress = true\<close> and the statements before the first awaited call; and
  what is left to do, if anything.
\<close>

definition call_syncNow :: "env \<Rightarrow> world \<Rightarrow> world \<times> activity option" where
  "call_syncNow e w =
     (if syncInProgress w \<or> \<not> onLine e then (w, None)
      else (setSyncStatus e ''syncing'' (w\<lparr>syncInProgress := True\<rparr>), Some Cycle_drain))"

definition call_processSyncQueue :: "env \<Rightarrow> world \<Rightarrow> world \<times> activity option" where
  "call_processSyncQueue e w =
     (if syncQueue w = [] \<or> syncInProgress w then (w, None)
      else
        (let w1 = w\<lparr>syncInProgress := True\<rparr>;
             pendingOps = filter (\<lambda>r. status (ops w1 r) = ''pending'') (syncQueue w1)
         in (w1, Some (Draining pendingOps))))"

text \<open>
  The \<^verbatim>\<open>catch\<close> and \<^verbatim>\<open>finally\<close> blocks of \<^verbatim>\<open>syncNow\<close>: after an exception
  (\<open>caught\<close>), and applied to the outcome of the whole \<^verbatim>\<open>try\<close> block (\<open>settle\<close>).
\<close>

definition caught :: "env \<Rightarrow> world \<Rightarrow> world \<times> activity option" where
  "caught e w = ((setSyncStatus e ''error'' w)\<lparr>syncInProgress := False\<rparr>, None)"

definition settle :: "env \<Rightarrow> world \<times> (error + 'a) \<Rightarrow> world" where
  "settle e r =
     (case r of
        (w1, Inr x) \<Rightarrow> w1\<lparr>syncInProgress := False\<rparr>
      | (w1, Inl err) \<Rightarrow> (setSyncStatus e ''error'' w1)\<lparr>syncInProgress := False\<rparr>)"

text \<open>The \<^verbatim>\<open>catch\<close> block inside the loop of \<^verbatim>\<open>processSyncQueue\<close>.\<close>

definition op_failed :: "nat \<Rightarrow> error \<Rightarrow> world \<Rightarrow> world" where
  "op_failed r err w =
     (let count = (case retryCount (ops w r) of None \<Rightarrow> 0 | Some n \<Rightarrow> n) + 1;
          w1 = w\<lparr>ops := (ops w)(r := (ops w r)
                 \<lparr>status := ''failed'', op_error := Some (message err),
                  retryCount := Some count\<rparr>)\<rparr>
      in if count > 3 then remove_op r w1 else w1)"

text \<open>
  One step of a started call: one awaited call of \<^verbatim>\<open>processSyncQueue\<close> or of
  \<^verbatim>\<open>syncNow\<close>, or the statements between two of them; the last step runs the
  \<^verbatim>\<open>finally\<close> block. Another event may come between any two steps, so at every \<^verbatim>\<open>await\<close>
  of the two methods. The methods they await are taken as defined above, each in one step.
  The drain of a cycle is the call \<^verbatim>\<open>await this.processSyncQueue()\<close>, made with the flag
  the cycle has set.
\<close>

fun advance :: "env \<Rightarrow> activity \<Rightarrow> world \<Rightarrow> world \<times> activity option" where
  "advance e (Draining []) w = (w\<lparr>syncInProgress := False\<rparr>, None)"
| "advance e (Draining (r # rs)) w =
     (case syncOperation e r w of (w1, res) \<Rightarrow> (w1, Some (Sent r res rs)))"
| "advance e (Sent r (Inr u) rs) w =
     (let w1 = w\<lparr>ops := (ops w)(r := (ops w r)\<lparr>status := ''completed''\<rparr>)\<rparr>;
          w2 = remove_op r w1
      in if db_open w2 then (w2, Some (Deleting r rs)) else (w2, Some (Draining rs)))"
| "advance e (Sent r (Inl err) rs) w = (op_failed r err w, Some (Draining rs))"
| "advance e (Deleting r rs) w =
     (case delete_syncQueue e (op_id (ops w r)) w of
        (w1, Inr u) \<Rightarrow> (w1, Some (Draining rs))
      | (w1, Inl err) \<Rightarrow> (op_failed r err w1, Some (Draining rs)))"
| "advance e Cycle_drain w =
     (case processSyncQueue e w of
        (w1, Inr u) \<Rightarrow> (w1, Some Cycle_local)
      | (w1, Inl err) \<Rightarrow> caught e w1)"
| "advance e Cycle_local w =
     (case getLocalData e w of
        (w1, Inr localData) \<Rightarrow> (w1, Some (Cycle_remote localData))
      | (w1, Inl err) \<Rightarrow> caught e w1)"
| "advance e (Cycle_remote localData) w =
     (case (case gistId w of None \<Rightarrow> Inr None | Some g \<Rightarrow> getRemoteData e w) of
        Inr remoteData \<Rightarrow> (w, Some (Cycle_merge localData remoteData))
      | Inl err \<Rightarrow> caught e w)"
| "advance e (Cycle_merge localData remoteData) w =
     (case mergeData e localData remoteData w of
        (w1, Inr mergedData) \<Rightarrow> (w1, Some (Cycle_save mergedData))
      | (w1, Inl err) \<Rightarrow> caught e w1)"
| "advance e (Cycle_save mergedData) w =
     (case saveLocalData e mergedData w of
        (w1, Inr mergedData') \<Rightarrow> (w1, Some (Cycle_upload mergedData'))
      | (w1, Inl err) \<Rightarrow> caught e w1)"
| "advance e (Cycle_upload mergedData) w =
     (case (case gistId w of None \<Rightarrow> (w, Inr ()) | Some g \<Rightarrow> uploadData e mergedData w) of
        (w1, Inr u) \<Rightarrow>
          ((setSyncStatus e ''success'' (w1\<lparr>lastSyncTime := Some (now e)\<rparr>))
             \<lparr>syncInProgress := False\<rparr>, None)
      | (w1, Inl err) \<Rightarrow> caught e w1)"

text \<open>
  A started call that nothing interrupts: its steps, one after the other, to the last.
  Every step brings the call nearer to its end (\<open>rank\<close>).
\<close>

fun rank :: "activity \<Rightarrow> nat" where
  "rank (Draining rs) = 3 * length rs"
| "rank (Sent r res rs) = 3 * length rs + 2"
| "rank (Deleting r rs) = 3 * length rs + 1"
| "rank Cycle_drain = 6"
| "rank Cycle_local = 5"
| "rank (Cycle_remote l) = 4"
| "rank (Cycle_merge l r) = 3"
| "rank (Cycle_save m) = 2"
| "rank (Cycle_upload m) = 1"

function complete :: "env \<Rightarrow> activity \<Rightarrow> world \<Rightarrow> world" where
  "complete e a w =
     (case advance e a w of (w1, None) \<Rightarrow> w1 | (w1, Some a1) \<Rightarrow> complete e a1 w1)"
  by pat_completeness auto
termination
proof (relation "measure (\<lambda>(e, a, w). rank a)")
  show "wf (measure (\<lambda>(e, a, w). rank a))" by simp
next
  fix e a w x1 x2 a1
  assume "(x1, x2) = advance e a w" and "x2 = Some a1"
  then have "advance e a w = (x1, Some a1)" by simp
  then have "rank a1 < rank a"
    by (cases "(e, a, w)" rule: advance.cases)
       (auto simp: caught_def Let_def split: prod.splits sum.splits if_splits)
  then show "((e, a1, x1), (e, a, w)) \<in> measure (\<lambda>(e, a, w). rank a)" by simp
qed

declare complete.simps [simp del]

text \<open>
  What the event loop may do next: call \<^verbatim>\<open>syncNow\<close>, call \<^verbatim>\<open>processSyncQueue\<close>, or
  resume one of the started calls. Each event reads the platform as it is at that moment.
  A \<open>schedule\<close> is any sequence of such events, from a state in which no call has started.
\<close>

datatype event = Call_syncNow env | Call_processSyncQueue env | Resume env nat

fun occur :: "event \<Rightarrow> world \<times> activity list \<Rightarrow> world \<times> activity list" where
  "occur (Call_syncNow e) (w, running) =
     (case call_syncNow e w of
        (w1, None) \<Rightarrow> (w1, running)
      | (w1, Some a) \<Rightarrow> (w1, running @ [a]))"
| "occur (Call_processSyncQueue e) (w, running) =
     (case call_processSyncQueue e w of
        (w1, None) \<Rightarrow> (w1, running)
      | (w1, Some a) \<Rightarrow> (w1, running @ [a]))"
| "occur (Resume e i) (w, running) =
     (if i < length running then
        (case advance e (running ! i) w of
           (w1, None) \<Rightarrow> (w1, take i running @ drop (Suc i) running)
         | (w1, Some a) \<Rightarrow> (w1, running[i := a]))
      else (w, running))"

definition schedule :: "event list \<Rightarrow> world \<Rightarrow> world \<times> activity list" where
  "schedule events w = fold occur events (w, [])"


section \<open>A manager after \<^verbatim>\<open>init\<close>, for the examples\<close>

text \<open>
  The state the constructor and \<^verbatim>\<open>init('FAM', 'm1')\<close> leave, with the database open and
  empty, and an environment in which every call succeeds.
\<close>

definition iso_example :: "int \<Rightarrow> string" where
  "iso_example n = (if n = 1000 then ''1970-01-01T00:00:01.000Z''
                    else if n = 2000 then ''1970-01-01T00:00:02.000Z''
                    else ''1970-01-01T00:00:00.000Z'')"

definition parse_example :: "string \<Rightarrow> int option" where
  "parse_example s = (if s = ''1970-01-01T00:00:01.000Z'' then Some 1000
                      else if s = ''1970-01-01T00:00:02.000Z'' then Some 2000
                      else if s = ''1970-01-01T00:00:00.000Z'' then Some 0
                      else None)"

definition example_env :: env where
  "example_env = \<lparr>onLine = True, now = 1000, parse_date = parse_example,
     toISOString = iso_example, uuid = ''6f1c0a52-0000-4000-8000-000000000001'',
     appContext = True, db_result = (\<lambda>c. Succeeds),
     fetch_get = Response 200 True, fetch_patch = Response 200 True\<rparr>"

definition blank_op :: queue_item where
  "blank_op = \<lparr>op_id = [], op_timestamp = 0, op_memberCode = [], operation = None,
     op_vectorClock = [], status = [], op_error = None, retryCount = None\<rparr>"

definition example_world :: world where
  "example_world = \<lparr>syncInProgress = False, conflictResolutionStrategy = ''last-write-wins'',
     vectorClock = [(''m1'', N 0)], syncQueue = [], ops = (\<lambda>r. blank_op), allocated = 0,
     lastSyncTime = None, familyCode = ''FAM'', memberCode = ''m1'', gistId = None,
     db_open = True, db = (\<lambda>s. []), db_syncQueue = [], remote_doc = None,
     syncStatus = None\<rparr>"

text \<open>An environment in which the local store is full.\<close>

definition quota_env :: env where
  "quota_env = example_env\<lparr>db_result :=
     (\<lambda>c. if c = DbClear ''transactions'' \<or> c = DbSave ''syncQueue''
          then Rejects ''QuotaExceededError'' else Succeeds)\<rparr>"

text \<open>
  A manager with a gist: the local store holds one transaction, the remote document an
  edit of it made one second later and one more transaction.
\<close>

definition shared_world :: world where
  "shared_world = example_world\<lparr>gistId := Some ''abc123'',
     vectorClock := [(''m1'', N 2)],
     db := (\<lambda>s. if s = ''transactions''
       then [\<lparr>item_id = ''t1'', updatedAt = Some (Str ''1970-01-01T00:00:00.000Z''),
              createdAt = Some (Str ''1970-01-01T00:00:00.000Z''), content = ''amount: 10''\<rparr>]
       else []),
     remote_doc := Some (Doc False None
       \<lparr>collections = [(''transactions'',
           [\<lparr>item_id = ''t1'', updatedAt = Some (Str ''1970-01-01T00:00:01.000Z''),
             createdAt = Some (Str ''1970-01-01T00:00:00.000Z''), content = ''amount: 20''\<rparr>,
            \<lparr>item_id = ''t2'', updatedAt = None,
             createdAt = Some (Str ''1970-01-01T00:00:00.000Z''), content = ''amount: 5''\<rparr>])],
        snap_vectorClock = Some [(''m2'', N 3)], lastModified = None,
        snap_memberCode = ''m2''\<rparr>)\<rparr>"

text \<open>A manager with one operation waiting in its queue.\<close>

definition queued_world :: world where
  "queued_world = example_world\<lparr>syncQueue := [0],
     ops := (\<lambda>r. blank_op)(0 := \<lparr>op_id = ''op-1'', op_timestamp = 1, op_memberCode = ''m1'',
        operation = Some ''CREATE'', op_vectorClock = [(''m1'', N 0)], status = ''pending'',
        op_error = None, retryCount = None\<rparr>),
     allocated := 1\<rparr>"

section \<open>The JavaScript map\<close>

lemma Map_set_keys:
  "map fst (Map_set k v m) = (if k \<in> set (map fst m) then map fst m else map fst m @ [k])"
  by (induction k v m rule: Map_set.induct) auto

lemma dom_Map_set: "fst ` set (Map_set k v m) = insert k (fst ` set m)"
  by (induction k v m rule: Map_set.induct) auto

lemma map_of_Map_set: "map_of (Map_set k v m) = (map_of m)(k \<mapsto> v)"
  by (induction k v m rule: Map_set.induct) (auto simp: fun_eq_iff)

lemma set_Map_set: "set (Map_set k v m) \<subseteq> insert (k, v) (set m)"
  by (induction k v m rule: Map_set.induct) auto

lemma distinct_Map_set: "distinct (map fst m) \<Longrightarrow> distinct (map fst (Map_set k v m))"
  by (simp add: Map_set_keys)

lemma Map_set_same: "map_of m k = Some v \<Longrightarrow> Map_set k v m = m"
  by (induction k v m rule: Map_set.induct) (auto split: if_splits)

lemma Map_set_append: "k \<notin> fst ` set m \<Longrightarrow> Map_set k v m = m @ [(k, v)]"
  by (induction k v m rule: Map_set.induct) auto

lemma Map_set_map:
  "t \<in> set ks \<Longrightarrow> distinct ks \<Longrightarrow>
   Map_set t v (map (\<lambda>k. (k, h k)) ks) = map (\<lambda>k. (k, (h(t := v)) k)) ks"
  by (induction ks) auto

lemma fold_Map_set_map:
  "set ts \<subseteq> set ks \<Longrightarrow> distinct ks \<Longrightarrow>
   fold (\<lambda>t m. Map_set t (f t) m) ts (map (\<lambda>k. (k, h k)) ks)
     = map (\<lambda>k. (k, if k \<in> set ts then f k else h k)) ks"
proof (induction ts arbitrary: h)
  case Nil
  show ?case by simp
next
  case (Cons t ts)
  then have t: "t \<in> set ks" and ts: "set ts \<subseteq> set ks" by simp_all
  have "fold (\<lambda>t m. Map_set t (f t) m) (t # ts) (map (\<lambda>k. (k, h k)) ks)
        = fold (\<lambda>t m. Map_set t (f t) m) ts (map (\<lambda>k. (k, (h(t := f t)) k)) ks)"
    by (simp add: Map_set_map [OF t Cons.prems(2)])
  also have "\<dots> = map (\<lambda>k. (k, if k \<in> set ts then f k else (h(t := f t)) k)) ks"
    by (rule Cons.IH [OF ts Cons.prems(2)])
  also have "\<dots> = map (\<lambda>k. (k, if k \<in> set (t # ts) then f k else h k)) ks"
    by simp
  finally show ?case .
qed

lemma map_of_keyed_map: "t \<in> set ks \<Longrightarrow> map_of (map (\<lambda>k. (k, h k)) ks) t = Some (h t)"
  by (induction ks) auto

section \<open>Properties of the resolver\<close>

lemma stamp_spec_eq:
  "(updatedAt x \<noteq> None \<longrightarrow> truthy (updatedAt x)) \<Longrightarrow>
   (createdAt x \<noteq> None \<longrightarrow> truthy (createdAt x)) \<Longrightarrow> stamp x = stamp_spec x"
  by (cases "updatedAt x"; cases "createdAt x") (auto simp: stamp_def stamp_spec_def)

lemma resolveConflict_cases:
  "strategy \<noteq> ''manual'' \<Longrightarrow>
   resolveConflict parse strategy l r type = Inr l \<or> resolveConflict parse strategy l r type = Inr r"
  by (simp add: resolveConflict_def)

text \<open>
  C1, as amended. Under \<^verbatim>\<open>'last-write-wins'\<close> the resolver returns the local record
  when its time stamp is strictly later than the remote one, and the remote record in
  every other case: when the remote stamp is later, when the two stamps are equal, and when
  one of them is not a valid date. The stamp of a record is the time value of
  \<^verbatim>\<open>updatedAt || createdAt || 0\<close>.
\<close>

theorem resolveConflict_last_write_wins:
  "resolveConflict parse ''last-write-wins'' local remote type =
     Inr (if js_gt (getTime parse (stamp local)) (getTime parse (stamp remote))
          then local else remote)"
  by (simp add: resolveConflict_def)

text \<open>
  C1 as the specification states it fails on a tie: two records with the same
  \<^verbatim>\<open>updatedAt\<close> and different contents resolve to the remote one.
\<close>

theorem resolveConflict_tie_counterexample:
  "stamp_spec \<lparr>item_id = ''t1'', updatedAt = Some (Num 5), createdAt = None, content = ''local''\<rparr>
     = stamp_spec \<lparr>item_id = ''t1'', updatedAt = Some (Num 5), createdAt = None, content = ''remote''\<rparr>
   \<and> resolveConflict (\<lambda>s. None) ''last-write-wins''
       \<lparr>item_id = ''t1'', updatedAt = Some (Num 5), createdAt = None, content = ''local''\<rparr>
       \<lparr>item_id = ''t1'', updatedAt = Some (Num 5), createdAt = None, content = ''remote''\<rparr>
       ''transactions''
     \<noteq> Inr \<lparr>item_id = ''t1'', updatedAt = Some (Num 5), createdAt = None, content = ''local''\<rparr>"
  by (simp add: resolveConflict_def stamp_def stamp_spec_def)

text \<open>
  C9. The \<^verbatim>\<open>'manual'\<close> branch does not return: the call of the missing method
  \<^verbatim>\<open>queueConflict\<close> raises, for every pair of records.
\<close>

theorem resolveConflict_manual_raises:
  "resolveConflict parse ''manual'' local remote type =
     Inl (TypeError ''this.queueConflict is not a function'')"
  by (simp add: resolveConflict_def)

text \<open>
  C10. A strategy other than the four named ones reaches the \<^verbatim>\<open>default\<close> branch, which
  returns the local record as it is.
\<close>

theorem resolveConflict_default:
  assumes "strategy \<noteq> ''last-write-wins''" and "strategy \<noteq> ''remote-wins''"
    and "strategy \<noteq> ''local-wins''" and "strategy \<noteq> ''manual''"
  shows "resolveConflict parse strategy local remote type = Inr local"
  using assms by (simp add: resolveConflict_def)

theorem resolveConflict_default_witness:
  "''newest-first'' \<noteq> ''last-write-wins'' \<and> ''newest-first'' \<noteq> ''remote-wins''
   \<and> ''newest-first'' \<noteq> ''local-wins'' \<and> ''newest-first'' \<noteq> ''manual''
   \<and> resolveConflict (\<lambda>s. None) ''newest-first''
     \<lparr>item_id = ''t1'', updatedAt = Some (Num 1), createdAt = None, content = ''a''\<rparr>
     \<lparr>item_id = ''t1'', updatedAt = Some (Num 9), createdAt = None, content = ''b''\<rparr>
     ''budgets''
   = Inr \<lparr>item_id = ''t1'', updatedAt = Some (Num 1), createdAt = None, content = ''a''\<rparr>"
  using resolveConflict_default [of "''newest-first''" "\<lambda>s. None"] by simp

section \<open>Properties of the merge engine\<close>

lemma keyed_Map_set: "keyed m \<Longrightarrow> item_id v = k \<Longrightarrow> keyed (Map_set k v m)"
  using set_Map_set [of k v m] by (auto simp: keyed_def distinct_Map_set list_all_iff)

lemma keyed_ids: "keyed m \<Longrightarrow> map item_id (map snd m) = map fst m"
  by (induction m) (auto simp: keyed_def)

lemma keyed_add_local: "keyed m \<Longrightarrow> keyed (add_local xs m)"
  by (induction xs arbitrary: m) (auto simp: keyed_Map_set)

lemma keys_add_local: "set (map fst (add_local xs m)) = set (map fst m) \<union> item_id ` set xs"
  by (induction xs arbitrary: m) (auto simp: dom_Map_set)

lemma vals_add_local: "snd ` set (add_local xs m) \<subseteq> snd ` set m \<union> set xs"
proof (induction xs arbitrary: m)
  case Nil
  then show ?case by simp
next
  case (Cons x xs)
  have "snd ` set (Map_set (item_id x) x m) \<subseteq> insert x (snd ` set m)"
    using set_Map_set [of "item_id x" x m] by auto
  with Cons.IH [of "Map_set (item_id x) x m"] show ?case by auto
qed

lemma map_of_add_local:
  "distinct (map item_id xs) \<Longrightarrow> x \<in> set xs \<Longrightarrow> map_of (add_local xs m) (item_id x) = Some x"
proof (induction xs arbitrary: m)
  case Nil
  then show ?case by simp
next
  case (Cons y ys)
  show ?case
  proof (cases "x \<in> set ys")
    case True
    with Cons show ?thesis by simp
  next
    case False
    with Cons.prems have xy: "x = y" and nin: "item_id y \<notin> item_id ` set ys" by auto
    have keep: "map_of (add_local ys m') k = map_of m' k" if "k \<notin> item_id ` set ys" for m' k
      using that by (induction ys arbitrary: m') (auto simp: map_of_Map_set)
    show ?thesis using keep [OF nin] xy by (simp add: map_of_Map_set)
  qed
qed

lemma keyed_lookup: "keyed m \<Longrightarrow> map_of m k = Some l \<Longrightarrow> item_id l = k \<and> l \<in> snd ` set m"
  by (induction m) (auto simp: keyed_def split: if_splits)

lemma merge_remote_step:
  assumes "strategy \<noteq> ''manual''"
  shows "\<exists>w. (w = r \<or> map_of m (item_id r) = Some w) \<and>
     merge_remote parse strategy type (r # rs) m =
       merge_remote parse strategy type rs (Map_set (item_id r) w m)"
proof (cases "map_of m (item_id r)")
  case None
  then show ?thesis by (simp add: Map_get_def)
next
  case (Some l)
  from resolveConflict_cases [OF assms, of parse l r type]
  show ?thesis
  proof
    assume "resolveConflict parse strategy l r type = Inr l"
    with Some have "merge_remote parse strategy type (r # rs) m =
       merge_remote parse strategy type rs (Map_set (item_id r) l m)"
      by (simp add: Map_get_def)
    with Some show ?thesis by blast
  next
    assume "resolveConflict parse strategy l r type = Inr r"
    with Some have "merge_remote parse strategy type (r # rs) m =
       merge_remote parse strategy type rs (Map_set (item_id r) r m)"
      by (simp add: Map_get_def)
    then show ?thesis by blast
  qed
qed

lemma merge_remote_ok:
  assumes "strategy \<noteq> ''manual''" and "keyed m"
  shows "\<exists>m'. merge_remote parse strategy type rs m = Inr m' \<and> keyed m'
           \<and> fst ` set m' = fst ` set m \<union> item_id ` set rs
           \<and> snd ` set m' \<subseteq> snd ` set m \<union> set rs
           \<and> (\<forall>k. k \<notin> item_id ` set rs \<longrightarrow> map_of m' k = map_of m k)"
  using assms(2)
proof (induction rs arbitrary: m)
  case Nil
  then show ?case by simp
next
  case (Cons r rs)
  from merge_remote_step [OF assms(1), of r m parse type rs] obtain w where
    w: "w = r \<or> map_of m (item_id r) = Some w"
    and step: "merge_remote parse strategy type (r # rs) m =
                 merge_remote parse strategy type rs (Map_set (item_id r) w m)"
    by blast
  have idw: "item_id w = item_id r" and inw: "w \<in> insert r (snd ` set m)"
    using w keyed_lookup [OF Cons.prems, of "item_id r" w] by auto
  let ?m = "Map_set (item_id r) w m"
  have k: "keyed ?m" using Cons.prems idw by (simp add: keyed_Map_set)
  from Cons.IH [OF k] obtain m' where m':
    "merge_remote parse strategy type rs ?m = Inr m'" "keyed m'"
    "fst ` set m' = fst ` set ?m \<union> item_id ` set rs"
    "snd ` set m' \<subseteq> snd ` set ?m \<union> set rs"
    "\<forall>k. k \<notin> item_id ` set rs \<longrightarrow> map_of m' k = map_of ?m k"
    by (elim exE conjE)
  have sub: "snd ` set ?m \<subseteq> insert w (snd ` set m)"
    using set_Map_set [of "item_id r" w m] by auto
  have a: "snd ` set m' \<subseteq> snd ` set m \<union> set (r # rs)"
    using m'(4) sub inw by auto
  have b: "fst ` set m' = fst ` set m \<union> item_id ` set (r # rs)"
    using m'(3) by (auto simp: dom_Map_set)
  have c: "\<forall>k. k \<notin> item_id ` set (r # rs) \<longrightarrow> map_of m' k = map_of m k"
    using m'(5) by (simp add: map_of_Map_set)
  have d: "merge_remote parse strategy type (r # rs) m = Inr m'"
    using step m'(1) by (simp only:)
  show ?case by (intro exI [of _ m'] conjI) (fact d m'(2) b a c)+
qed

lemma merge_remote_new:
  assumes "merge_remote parse strategy type rs m = Inr m'"
    and "distinct (map item_id rs)" and "r \<in> set rs" and "item_id r \<notin> fst ` set m"
  shows "map_of m' (item_id r) = Some r"
  using assms
proof (induction rs arbitrary: m)
  case Nil
  then show ?case by simp
next
  case (Cons x xs)
  have keep: "merge_remote parse strategy type ys n = Inr n' \<Longrightarrow> k \<notin> item_id ` set ys
              \<Longrightarrow> map_of n' k = map_of n k" for ys n n' k
  proof (induction ys arbitrary: n)
    case Nil
    then show ?case by simp
  next
    case (Cons y ys)
    from Cons.prems(1) obtain w where
      "merge_remote parse strategy type ys (Map_set (item_id y) w n) = Inr n'"
      by (auto simp: Map_get_def split: option.splits sum.splits)
    from Cons.IH [OF this] Cons.prems(2) show ?case by (simp add: map_of_Map_set)
  qed
  show ?case
  proof (cases "r = x")
    case True
    with Cons.prems have none: "map_of m (item_id x) = None"
      by (simp add: map_of_eq_None_iff)
    with Cons.prems(1) have "merge_remote parse strategy type xs (Map_set (item_id x) x m) = Inr m'"
      by (simp add: Map_get_def)
    from keep [OF this, of "item_id x"] Cons.prems(2) True show ?thesis
      by (simp add: map_of_Map_set)
  next
    case False
    with Cons.prems have rin: "r \<in> set xs" by simp
    with Cons.prems(2) have ne: "item_id r \<noteq> item_id x" by (auto simp: image_iff)
    from Cons.prems(1) obtain w where
      "merge_remote parse strategy type xs (Map_set (item_id x) w m) = Inr m'"
      by (auto simp: Map_get_def split: option.splits sum.splits)
    moreover have "item_id r \<notin> fst ` set (Map_set (item_id x) w m)"
      using Cons.prems(4) ne by (simp add: dom_Map_set)
    ultimately show ?thesis using Cons.IH rin Cons.prems(2) by simp
  qed
qed

lemma mergeCollection_returns:
  assumes "strategy \<noteq> ''manual''"
  shows "\<exists>M. mergeCollection parse strategy L R type = Inr M \<and> distinct (map item_id M)
           \<and> set M \<subseteq> set L \<union> set R"
proof -
  let ?seed = "add_local L []"
  have ks: "keyed ?seed" by (rule keyed_add_local) (simp add: keyed_def)
  from merge_remote_ok [OF assms ks, of parse type R] obtain m' where m':
    "merge_remote parse strategy type R ?seed = Inr m'" "keyed m'"
    "snd ` set m' \<subseteq> snd ` set ?seed \<union> set R"
    by (elim exE conjE)
  let ?M = "map snd m'"
  have res: "mergeCollection parse strategy L R type = Inr ?M"
    by (simp add: mergeCollection_def m'(1))
  have ids: "map item_id ?M = map fst m'" by (rule keyed_ids [OF m'(2)])
  have d: "distinct (map item_id ?M)" using m'(2) unfolding ids by (simp add: keyed_def)
  have sub: "set ?M \<subseteq> set L \<union> set R"
    using m'(3) vals_add_local [of L "[]"] by auto
  show ?thesis by (intro exI [of _ ?M] conjI) (fact res d sub)+
qed

lemma add_local_distinct:
  "distinct (map fst m @ map item_id xs) \<Longrightarrow>
   add_local xs m = m @ map (\<lambda>x. (item_id x, x)) xs"
proof (induction xs arbitrary: m)
  case Nil
  show ?case by simp
next
  case (Cons x xs)
  from Cons.prems have nin: "item_id x \<notin> fst ` set m" by auto
  have d: "distinct (map fst (m @ [(item_id x, x)]) @ map item_id xs)"
    using Cons.prems by auto
  show ?case
    using Cons.IH [OF d] by (simp add: Map_set_append [OF nin])
qed

lemma merge_remote_same:
  assumes "strategy \<noteq> ''manual''" and "distinct (map item_id L)"
  shows "set P \<subseteq> set L \<Longrightarrow>
     merge_remote parse strategy type P (map (\<lambda>x. (item_id x, x)) L)
       = Inr (map (\<lambda>x. (item_id x, x)) L)"
proof (induction P)
  case Nil
  show ?case by simp
next
  case (Cons p P)
  let ?m = "map (\<lambda>x. (item_id x, x)) L"
  from Cons.prems have pin: "p \<in> set L" and sub: "set P \<subseteq> set L" by simp_all
  have dk: "distinct (map fst ?m)" using assms(2) by (simp add: comp_def)
  have look: "map_of ?m (item_id p) = Some p"
    by (rule map_of_is_SomeI [OF dk]) (use pin in auto)
  have res: "resolveConflict parse strategy p p type = Inr p"
    using resolveConflict_cases [OF assms(1), of parse p p type] by simp
  show ?case
    using Cons.IH [OF sub] by (simp add: Map_get_def look res Map_set_same [OF look])
qed

lemma mergeCollection_same:
  assumes "strategy \<noteq> ''manual''" and "distinct (map item_id L)" and "set P \<subseteq> set L"
  shows "mergeCollection parse strategy L P type = Inr L"
proof -
  have "add_local L [] = map (\<lambda>x. (item_id x, x)) L"
    using add_local_distinct [of "[]" L] assms(2) by simp
  then show ?thesis
    by (simp add: mergeCollection_def merge_remote_same [OF assms] comp_def)
qed

lemma mergeCollection_merges:
  assumes "distinct (map item_id L)" and "distinct (map item_id R)"
    and "strategy \<noteq> ''manual''"
  shows "\<exists>M. mergeCollection parse strategy L R type = Inr M
           \<and> distinct (map item_id M)
           \<and> set (map item_id M) = set (map item_id L) \<union> set (map item_id R)
           \<and> set M \<subseteq> set L \<union> set R
           \<and> (\<forall>x \<in> set L. item_id x \<notin> item_id ` set R \<longrightarrow> x \<in> set M)
           \<and> (\<forall>x \<in> set R. item_id x \<notin> item_id ` set L \<longrightarrow> x \<in> set M)"
proof -
  let ?seed = "add_local L []"
  have ks: "keyed ?seed" by (rule keyed_add_local) (simp add: keyed_def)
  from merge_remote_ok [OF assms(3) ks, of parse type R] obtain m' where m':
    "merge_remote parse strategy type R ?seed = Inr m'" "keyed m'"
    "fst ` set m' = fst ` set ?seed \<union> item_id ` set R"
    "snd ` set m' \<subseteq> snd ` set ?seed \<union> set R"
    "\<forall>k. k \<notin> item_id ` set R \<longrightarrow> map_of m' k = map_of ?seed k"
    by (elim exE conjE)
  let ?M = "map snd m'"
  have res: "mergeCollection parse strategy L R type = Inr ?M"
    by (simp add: mergeCollection_def m'(1))
  have ids: "map item_id ?M = map fst m'" by (rule keyed_ids [OF m'(2)])
  have d: "distinct (map item_id ?M)" using m'(2) unfolding ids by (simp add: keyed_def)
  have seedkeys: "fst ` set ?seed = item_id ` set L"
    using keys_add_local [of L "[]"] by simp
  have s: "set (map item_id ?M) = set (map item_id L) \<union> set (map item_id R)"
    using ids m'(3) seedkeys by simp
  have sub: "set ?M \<subseteq> set L \<union> set R"
    using m'(4) vals_add_local [of L "[]"] by auto
  have onlyL: "x \<in> set ?M" if "x \<in> set L" "item_id x \<notin> item_id ` set R" for x
  proof -
    have "map_of m' (item_id x) = Some x"
      using m'(5) that map_of_add_local [OF assms(1) that(1), of "[]"] by simp
    then show ?thesis by (force dest!: map_of_SomeD)
  qed
  have onlyR: "x \<in> set ?M" if "x \<in> set R" "item_id x \<notin> item_id ` set L" for x
  proof -
    have "map_of m' (item_id x) = Some x"
      using merge_remote_new [OF m'(1) assms(2) that(1)] that(2) seedkeys by simp
    then show ?thesis by (force dest!: map_of_SomeD)
  qed
  have oL: "\<forall>x \<in> set L. item_id x \<notin> item_id ` set R \<longrightarrow> x \<in> set ?M"
    using onlyL by (intro ballI impI)
  have oR: "\<forall>x \<in> set R. item_id x \<notin> item_id ` set L \<longrightarrow> x \<in> set ?M"
    using onlyR by (intro ballI impI)
  show ?thesis by (intro exI [of _ ?M] conjI) (fact res d s sub oL oR)+
qed

text \<open>
  The lemma above is what C2 asks for, under every strategy but \<^verbatim>\<open>'manual'\<close>.

  C2. Under \<^verbatim>\<open>'manual'\<close> the merge of two collections that share an id returns no
  collection: the resolver's call of the missing method \<^verbatim>\<open>queueConflict\<close> raises, and
  \<^verbatim>\<open>mergeCollection\<close> with it.
\<close>

theorem mergeCollection_manual_raises:
  "mergeCollection (\<lambda>s. None) ''manual''
     [\<lparr>item_id = ''t1'', updatedAt = Some (Num 1), createdAt = None, content = ''local''\<rparr>]
     [\<lparr>item_id = ''t1'', updatedAt = Some (Num 9), createdAt = None, content = ''remote''\<rparr>]
     ''transactions''
   = Inl (TypeError ''this.queueConflict is not a function'')"
  by (simp add: mergeCollection_def Map_get_def resolveConflict_def)

section \<open>Properties of the clock merge\<close>

lemma valid_clock_lookup:
  "valid_clock c \<Longrightarrow> map_of c k = Some v \<Longrightarrow> \<exists>n. v = N n \<and> 0 \<le> n"
  by (induction c) (auto simp: valid_clock_def split: if_splits elim: counter_ok.elims)

lemma counter_nonneg: "valid_clock c \<Longrightarrow> 0 \<le> counter c k"
  using valid_clock_lookup [of c k]
  by (cases "map_of c k") (auto simp: counter_def)

lemma map_of_merge_clock_entry:
  assumes "valid_clock a" and "0 \<le> n"
  shows "map_of (merge_clock_entry (m, N n) a) = (map_of a)(m \<mapsto> N (max n (counter a m)))"
proof (cases "map_of a m")
  case None
  with assms show ?thesis
    by (simp add: merge_clock_entry_def Map_get_def map_of_Map_set counter_def max_def)
next
  case (Some v)
  with valid_clock_lookup [OF assms(1) Some] obtain l where "v = N l" "0 \<le> l" by blast
  with Some assms show ?thesis
    by (auto simp: merge_clock_entry_def Map_get_def map_of_Map_set counter_def max_def fun_eq_iff)
qed

lemma valid_merge_clock_entry:
  assumes "valid_clock a" and "0 \<le> n"
  shows "valid_clock (merge_clock_entry (m, N n) a)"
proof -
  have "valid_clock (Map_set m (N n) a)"
    using assms set_Map_set [of m "N n" a]
    by (auto simp: valid_clock_def distinct_Map_set list_all_iff)
  with assms show ?thesis by (simp add: merge_clock_entry_def)
qed

lemma map_of_mergeClocks:
  assumes "valid_clock a" and "valid_clock b"
  shows "valid_clock (mergeClocks a b) \<and>
         map_of (mergeClocks a b) k =
           (if k \<in> fst ` set a \<union> fst ` set b
            then Some (N (max (counter a k) (counter b k))) else None)"
  using assms
proof (induction b arbitrary: a)
  case Nil
  show ?case
  proof (cases "map_of a k")
    case None
    with Nil show ?thesis by (simp add: mergeClocks_def map_of_eq_None_iff)
  next
    case (Some v)
    from valid_clock_lookup [OF Nil(1) Some] obtain n where "v = N n" "0 \<le> n" by blast
    with Some Nil have "counter a k = n" "counter [] k = 0" "k \<in> fst ` set a"
      by (auto simp: counter_def dest: map_of_SomeD intro: rev_image_eqI)
    with Some Nil \<open>v = N n\<close> \<open>0 \<le> n\<close> show ?thesis by (simp add: mergeClocks_def)
  qed
next
  case (Cons e b)
  obtain m v where e: "e = (m, v)" by (cases e)
  from Cons.prems(2) e obtain n where v: "v = N n" "0 \<le> n"
    and vb: "valid_clock b" and nin: "m \<notin> fst ` set b"
    by (cases v) (auto simp: valid_clock_def)
  let ?a = "merge_clock_entry (m, N n) a"
  have va: "valid_clock ?a" by (rule valid_merge_clock_entry [OF Cons.prems(1) v(2)])
  have ma: "map_of ?a = (map_of a)(m \<mapsto> N (max n (counter a m)))"
    by (rule map_of_merge_clock_entry [OF Cons.prems(1) v(2)])
  have unf: "mergeClocks a (e # b) = mergeClocks ?a b"
    by (simp add: mergeClocks_def e v)
  from Cons.IH [OF va vb] have IH:
    "valid_clock (mergeClocks ?a b)"
    "map_of (mergeClocks ?a b) k =
       (if k \<in> fst ` set ?a \<union> fst ` set b
        then Some (N (max (counter ?a k) (counter b k))) else None)" by simp_all
  have doma: "fst ` set ?a = insert m (fst ` set a)"
    using ma by (metis dom_map_of_conv_image_fst dom_fun_upd option.distinct(1))
  have "map_of b m = None" using nin by (simp add: map_of_eq_None_iff)
  then have cb_m: "counter b m = 0" by (simp add: counter_def)
  have ca: "counter ?a k = (if k = m then max n (counter a m) else counter a k)"
    by (simp add: counter_def ma)
  have ceb: "counter (e # b) k = (if k = m then n else counter b k)"
    by (auto simp: counter_def e v)
  have na: "0 \<le> counter a m" by (rule counter_nonneg [OF Cons.prems(1)])
  have "map_of (mergeClocks ?a b) k =
           (if k \<in> fst ` set a \<union> fst ` set (e # b)
            then Some (N (max (counter a k) (counter (e # b) k))) else None)"
    unfolding IH(2) doma ca ceb using cb_m na v(2) by (auto simp: e max_def)
  with IH(1) show ?case unfolding unf by simp
qed

lemma distinct_merge_clock_entry:
  "distinct (map fst a) \<Longrightarrow> distinct (map fst (merge_clock_entry e a))"
  by (cases e) (simp add: merge_clock_entry_def distinct_Map_set)

lemma distinct_mergeClocks: "distinct (map fst a) \<Longrightarrow> distinct (map fst (mergeClocks a b))"
  unfolding mergeClocks_def
  by (induction b arbitrary: a) (simp_all add: distinct_merge_clock_entry)

lemma mergeClocks_idem: "distinct (map fst a) \<Longrightarrow> mergeClocks a a = a"
proof -
  have "set b \<subseteq> set a \<Longrightarrow> distinct (map fst a) \<Longrightarrow> fold merge_clock_entry b a = a" for b
  proof (induction b)
    case Nil
    then show ?case by simp
  next
    case (Cons e b)
    obtain m v where e: "e = (m, v)" by (cases e)
    with Cons.prems have look: "map_of a m = Some v" by simp
    have "merge_clock_entry e a = a"
      by (simp add: e merge_clock_entry_def Map_set_same [OF look])
    with Cons show ?case by simp
  qed
  then show "distinct (map fst a) \<Longrightarrow> mergeClocks a a = a" by (simp add: mergeClocks_def)
qed

lemma mergeClocks_same: "valid_clock a \<Longrightarrow> mergeClocks a a = a"
  by (simp add: mergeClocks_idem valid_clock_def)

lemma counter_mergeClocks:
  assumes "valid_clock a" and "valid_clock b"
  shows "counter (mergeClocks a b) k = max (counter a k) (counter b k)"
proof (cases "k \<in> fst ` set a \<union> fst ` set b")
  case True
  with map_of_mergeClocks [OF assms, of k] show ?thesis by (simp add: counter_def)
next
  case False
  then have "map_of a k = None" "map_of b k = None" by (simp_all add: map_of_eq_None_iff)
  with False map_of_mergeClocks [OF assms, of k] show ?thesis by (simp add: counter_def)
qed

text \<open>
  C3. For valid clocks \<open>a\<close> (the manager's) and \<open>b\<close> (the remote snapshot's), the clock
  that \<^verbatim>\<open>mergeData\<close> leaves in the manager is \<open>mergeClocks a b\<close>; it maps every member of
  either clock to the larger of the two counters (a missing counter counting as 0) and has
  no other member; merging is commutative as a map from members to counters, merging a
  clock with itself gives it back, and no counter of either clock decreases.
\<close>

theorem clock_merge_pointwise_max:
  assumes "valid_clock a" and "valid_clock b"
    and "vectorClock w = a" and "snap_vectorClock rd = Some b"
  shows "vectorClock (fst (mergeData e localData (Some rd) w)) = mergeClocks a b
       \<and> (\<forall>k. map_of (mergeClocks a b) k =
               (if k \<in> fst ` set a \<union> fst ` set b
                then Some (N (max (counter a k) (counter b k))) else None))
       \<and> map_of (mergeClocks a b) = map_of (mergeClocks b a)
       \<and> mergeClocks a a = a
       \<and> (\<forall>k. counter a k \<le> counter (mergeClocks a b) k
              \<and> counter b k \<le> counter (mergeClocks a b) k)"
proof -
  have 1: "vectorClock (fst (mergeData e localData (Some rd) w)) = mergeClocks a b"
    using assms(3,4) by (simp add: mergeData_def Let_def split: sum.splits)
  have 2: "\<forall>k. map_of (mergeClocks a b) k =
               (if k \<in> fst ` set a \<union> fst ` set b
                then Some (N (max (counter a k) (counter b k))) else None)"
    using map_of_mergeClocks [OF assms(1,2)] by blast
  have 3: "map_of (mergeClocks a b) = map_of (mergeClocks b a)"
  proof
    fix k
    show "map_of (mergeClocks a b) k = map_of (mergeClocks b a) k"
      using map_of_mergeClocks [OF assms(1,2), of k] map_of_mergeClocks [OF assms(2,1), of k]
      by (simp add: max.commute Un_commute)
  qed
  have 4: "mergeClocks a a = a" by (rule mergeClocks_same [OF assms(1)])
  have 5: "\<forall>k. counter a k \<le> counter (mergeClocks a b) k
              \<and> counter b k \<le> counter (mergeClocks a b) k"
    by (simp add: counter_mergeClocks [OF assms(1,2)])
  show ?thesis by (intro conjI) (fact 1 2 3 4 5)+
qed

theorem clock_merge_pointwise_max_witness:
  "valid_clock [(''m1'', N 2), (''m2'', N 0)] \<and> valid_clock [(''m2'', N 5), (''m3'', N 1)]
   \<and> vectorClock (fst (mergeData example_env
         \<lparr>collections = [], snap_vectorClock = None, lastModified = None, snap_memberCode = ''m1''\<rparr>
         (Some \<lparr>collections = [], snap_vectorClock = Some [(''m2'', N 5), (''m3'', N 1)],
                lastModified = None, snap_memberCode = ''m2''\<rparr>)
         (example_world\<lparr>vectorClock := [(''m1'', N 2), (''m2'', N 0)]\<rparr>)))
      = [(''m1'', N 2), (''m2'', N 5), (''m3'', N 1)]
   \<and> map_of (mergeClocks [(''m1'', N 2), (''m2'', N 0)] [(''m2'', N 5), (''m3'', N 1)])
      = map_of (mergeClocks [(''m2'', N 5), (''m3'', N 1)] [(''m1'', N 2), (''m2'', N 0)])
   \<and> mergeClocks [(''m1'', N 2), (''m2'', N 0)] [(''m1'', N 2), (''m2'', N 0)]
      = [(''m1'', N 2), (''m2'', N 0)]"
proof -
  have v: "valid_clock [(''m1'', N 2), (''m2'', N 0)]" "valid_clock [(''m2'', N 5), (''m3'', N 1)]"
    by (simp_all add: valid_clock_def)
  have m: "mergeClocks [(''m1'', N 2), (''m2'', N 0)] [(''m2'', N 5), (''m3'', N 1)]
           = [(''m1'', N 2), (''m2'', N 5), (''m3'', N 1)]"
    by (simp add: mergeClocks_def merge_clock_entry_def Map_get_def)
  from clock_merge_pointwise_max [OF v, of
      "example_world\<lparr>vectorClock := [(''m1'', N 2), (''m2'', N 0)]\<rparr>"
      "\<lparr>collections = [], snap_vectorClock = Some [(''m2'', N 5), (''m3'', N 1)],
        lastModified = None, snap_memberCode = ''m2''\<rparr>" example_env
      "\<lparr>collections = [], snap_vectorClock = None, lastModified = None, snap_memberCode = ''m1''\<rparr>"]
  show ?thesis using v m by simp
qed

section \<open>Properties of the operation queue and of the sync cycle\<close>

text \<open>
  Whatever makes an attempt fail, the \<^verbatim>\<open>catch\<close> block marks the entry, counts the
  failure and records its reason.
\<close>

lemma failed_attempt_is_recorded:
  assumes "attempt_op e r w = (w1, Inl err)"
  shows "status (ops (process_op e r w) r) = ''failed''
       \<and> op_error (ops (process_op e r w) r) = Some (message err)
       \<and> retryCount (ops (process_op e r w) r)
           = Some ((case retryCount (ops w1 r) of None \<Rightarrow> 0 | Some n \<Rightarrow> n) + 1)"
  using assms by (simp add: process_op_def Let_def remove_op_def)

lemma drain_without_pending:
  assumes "\<not> syncInProgress w" and "list_all (\<lambda>r. status (ops w r) \<noteq> ''pending'') (syncQueue w)"
  shows "processSyncQueue e w = (w, Inr ())"
proof -
  have "filter (\<lambda>r. status (ops w r) = ''pending'') (syncQueue w) = []"
    using assms(2) by (simp add: list_all_iff filter_empty_conv)
  with assms(1) show ?thesis by (simp add: processSyncQueue_def)
qed

text \<open>
  C4. An operation whose transmission fails is marked \<^verbatim>\<open>'failed'\<close> with
  \<^verbatim>\<open>retryCount\<close> 1 and the reason, and stays in the queue; a drain only takes the entries
  whose status is \<^verbatim>\<open>'pending'\<close>, so every later drain leaves the state as it is: the
  operation is never attempted a second time and never removed. Here the operation is
  queued on line with no payload, so that the drain \<^verbatim>\<open>queueOperation\<close> starts fails on
  it.
\<close>

theorem failed_operation_is_never_retried:
  "(let w1 = fst (queueOperation example_env None example_world) in
      syncQueue w1 = [0] \<and> status (ops w1 0) = ''failed'' \<and> retryCount (ops w1 0) = Some 1
      \<and> op_error (ops w1 0) = Some ''operation.operation is undefined''
      \<and> processSyncQueue example_env w1 = (w1, Inr ()))"
proof -
  define w1 where "w1 = fst (queueOperation example_env None example_world)"
  have q: "syncQueue w1 = [0]" and s: "status (ops w1 0) = ''failed''"
    and r: "retryCount (ops w1 0) = Some 1"
    and m: "op_error (ops w1 0) = Some ''operation.operation is undefined''"
    and p: "\<not> syncInProgress w1"
    by (simp_all add: w1_def queueOperation_def example_env_def example_world_def and_then_def
        save_syncQueue_def ensure_open_def processSyncQueue_def process_op_def attempt_op_def
        syncOperation_def bump_def Map_get_def Let_def)
  have "processSyncQueue example_env w1 = (w1, Inr ())"
    by (rule drain_without_pending) (simp_all add: p q s)
  with q s r m show ?thesis by (simp add: w1_def Let_def)
qed

text \<open>
  C5. When the remote snapshot is unavailable (no gist is configured, the fetch fails, the
  response is an error or is not JSON, the file has no content, its content does not
  parse, or it does not decrypt under the family code), \<^verbatim>\<open>getRemoteData\<close> is fulfilled
  with \<^verbatim>\<open>null\<close>, and \<^verbatim>\<open>mergeData\<close> on \<^verbatim>\<open>null\<close> returns the local snapshot itself and
  leaves the state as it is.
\<close>

theorem remote_unavailable_first_sync:
  assumes "gistId w = None
         \<or> (\<exists>m. fetch_get e = NetworkFailure m)
         \<or> (\<exists>code json. fetch_get e = Response code json
               \<and> (code < 200 \<or> 299 < code \<or> json = False))
         \<or> remote_doc w = None
         \<or> remote_doc w = Some Unparseable
         \<or> (\<exists>data plain. remote_doc w = Some (Doc True data plain) \<and> familyCode w \<noteq> []
               \<and> decrypt data (familyCode w) = None)"
  shows "getRemoteData e w = Inr None \<and> mergeData e localData None w = (w, Inr localData)"
proof
  show "mergeData e localData None w = (w, Inr localData)" by (simp add: mergeData_def)
  from assms show "getRemoteData e w = Inr None"
    by (auto simp: getRemoteData_def split: option.splits fetch_outcome.splits document.splits)
qed

theorem remote_unavailable_first_sync_witness:
  "fetch_get (example_env\<lparr>fetch_get := NetworkFailure ''Failed to fetch''\<rparr>)
     = NetworkFailure ''Failed to fetch''
   \<and> getRemoteData (example_env\<lparr>fetch_get := NetworkFailure ''Failed to fetch''\<rparr>)
        (example_world\<lparr>gistId := Some ''abc123''\<rparr>) = Inr None
   \<and> mergeData (example_env\<lparr>fetch_get := NetworkFailure ''Failed to fetch''\<rparr>)
        \<lparr>collections = [], snap_vectorClock = Some [(''m1'', N 0)], lastModified = None,
         snap_memberCode = ''m1''\<rparr> None (example_world\<lparr>gistId := Some ''abc123''\<rparr>)
      = (example_world\<lparr>gistId := Some ''abc123''\<rparr>,
         Inr \<lparr>collections = [], snap_vectorClock = Some [(''m1'', N 0)], lastModified = None,
              snap_memberCode = ''m1''\<rparr>)"
  using remote_unavailable_first_sync
    [of "example_world\<lparr>gistId := Some ''abc123''\<rparr>"
        "example_env\<lparr>fetch_get := NetworkFailure ''Failed to fetch''\<rparr>"]
  by simp

lemma syncNow_resolves: "snd (syncNow e w) = Inr ()"
  by (simp add: syncNow_def split: prod.splits sum.splits)

text \<open>
  A cycle that raises is caught: the error is reported to the host application, when there
  is one, and goes no further. A cycle that runs ends with the flag cleared.
\<close>

lemma syncNow_reports_error:
  assumes "\<not> syncInProgress w" and "onLine e"
    and "sync_cycle e (setSyncStatus e ''syncing'' (w\<lparr>syncInProgress := True\<rparr>)) = (w1, Inl err)"
  shows "syncNow e w = ((setSyncStatus e ''error'' w1)\<lparr>syncInProgress := False\<rparr>, Inr ())"
  using assms by (simp add: syncNow_def)

lemma syncNow_releases: "\<not> syncInProgress (fst (syncNow e w)) \<or> syncInProgress w"
  by (simp add: syncNow_def split: prod.splits sum.splits)


text \<open>
  C8 as the specification states it fails for \<^verbatim>\<open>syncNow\<close>: when clearing a store
  fails while the merged snapshot is saved, the cycle ends in that error, and the promise
  of \<^verbatim>\<open>syncNow\<close> is fulfilled all the same.
\<close>

theorem syncNow_swallows_save_failure:
  "snd (sync_cycle quota_env (setSyncStatus quota_env ''syncing''
          (example_world\<lparr>syncInProgress := True\<rparr>))) = Inl (Error ''QuotaExceededError'')
   \<and> snd (syncNow quota_env example_world) = Inr ()
   \<and> syncStatus (fst (syncNow quota_env example_world)) = Some ''error''"
  by (simp add: quota_env_def example_env_def example_world_def syncNow_def sync_cycle_def
      setSyncStatus_def and_then_def processSyncQueue_def getLocalData_def ensure_open_def
      dataTypes_def getAll_def mergeData_def saveLocalData_def stores_def clear_def)


section \<open>The local store\<close>

lemma insort_key_snoc:
  "\<forall>y \<in> set acc. item_id y < item_id x \<Longrightarrow> insort_key item_id x acc = acc @ [x]"
  by (induction acc) auto

lemma fold_db_put_sorted:
  "sorted (map item_id (acc @ xs)) \<Longrightarrow> distinct (map item_id (acc @ xs)) \<Longrightarrow>
   fold db_put xs acc = acc @ xs"
proof (induction xs arbitrary: acc)
  case Nil
  show ?case by simp
next
  case (Cons x xs)
  have less: "\<forall>y \<in> set acc. item_id y < item_id x"
  proof
    fix y assume y: "y \<in> set acc"
    with Cons.prems(1) have "item_id y \<le> item_id x" by (auto simp: sorted_append)
    moreover from y Cons.prems(2) have "item_id y \<noteq> item_id x"
      by (auto simp: image_iff)
    ultimately show "item_id y < item_id x" by simp
  qed
  then have f: "filter (\<lambda>r. item_id r \<noteq> item_id x) acc = acc"
    by (auto simp: filter_id_conv)
  have put: "db_put x acc = acc @ [x]"
    by (simp add: db_put_def f insort_key_snoc [OF less])
  show ?case
    using Cons.IH [of "acc @ [x]"] Cons.prems by (simp add: put)
qed

lemma ids_db_put:
  "map item_id (db_put x rows) =
     insort (item_id x) (filter (\<lambda>k. k \<noteq> item_id x) (map item_id rows))"
proof -
  have "map item_id (insort_key item_id x ys) = insort (item_id x) (map item_id ys)" for ys
    by (induction ys) auto
  then show ?thesis by (simp add: db_put_def filter_map comp_def)
qed

lemma sorted_db_put:
  "sorted (map item_id rows) \<Longrightarrow> distinct (map item_id rows) \<Longrightarrow>
   sorted (map item_id (db_put x rows)) \<and> distinct (map item_id (db_put x rows))"
  by (simp add: ids_db_put sorted_insort distinct_insort sorted_wrt_filter)

lemma sorted_fold_db_put:
  "sorted (map item_id acc) \<Longrightarrow> distinct (map item_id acc) \<Longrightarrow>
   sorted (map item_id (fold db_put xs acc)) \<and> distinct (map item_id (fold db_put xs acc))"
  by (induction xs arbitrary: acc) (simp_all add: sorted_db_put)

lemma set_db_put: "set (db_put x rows) = insert x {r \<in> set rows. item_id r \<noteq> item_id x}"
  by (auto simp: db_put_def set_insort_key)

lemma set_fold_db_put:
  "distinct (map item_id xs) \<Longrightarrow> item_id ` set xs \<inter> item_id ` set acc = {} \<Longrightarrow>
   set (fold db_put xs acc) = set acc \<union> set xs"
proof (induction xs arbitrary: acc)
  case Nil
  show ?case by simp
next
  case (Cons x xs)
  have s: "set (db_put x acc) = insert x (set acc)"
    using Cons.prems(2) by (auto simp: set_db_put image_iff)
  have "item_id ` set xs \<inter> item_id ` set (db_put x acc) = {}"
    using Cons.prems unfolding s by auto
  with Cons.IH [of "db_put x acc"] Cons.prems(1) show ?case by (simp add: s)
qed

lemma prepare_restamp:
  "item_id x \<noteq> [] \<Longrightarrow> truthy (createdAt x) \<Longrightarrow>
   prepare e x = x\<lparr>updatedAt := Some (Str (toISOString e (now e)))\<rparr>"
  by (cases x) (simp add: prepare_def)

lemma prepare_keeps:
  "item_id x \<noteq> [] \<Longrightarrow> toISOString e (now e) \<noteq> [] \<Longrightarrow>
   item_id (prepare e x) = item_id x \<and> truthy (createdAt (prepare e x))"
  by (simp add: prepare_def)

section \<open>A sync cycle in which every call succeeds\<close>

lemma and_then_Inr: "and_then (w, Inr x) k = k w x"
  by (simp add: and_then_def)

lemma and_then_Inl: "and_then (w, Inl err) k = (w, Inl err)"
  by (simp add: and_then_def)

lemma db_open_idem: "db_open w \<Longrightarrow> w\<lparr>db_open := True\<rparr> = w"
  by (cases w) simp

lemma ensure_open_ok:
  "db_result e DbInit = Succeeds \<Longrightarrow> ensure_open e w = (w\<lparr>db_open := True\<rparr>, Inr ())"
  by (simp add: ensure_open_def db_init_def db_open_idem)

lemma getAll_each_ok:
  "\<forall>c. db_result e c = Succeeds \<Longrightarrow> db_open w \<Longrightarrow>
   getAll_each e ts w = (w, Inr (map (\<lambda>t. (t, db w t)) ts))"
  by (induction ts) (simp_all add: getAll_def ensure_open_def and_then_def)

lemma getLocalData_ok:
  "\<forall>c. db_result e c = Succeeds \<Longrightarrow>
   getLocalData e w =
     (w\<lparr>db_open := True\<rparr>,
      Inr \<lparr>collections = map (\<lambda>t. (t, db w t)) dataTypes,
           snap_vectorClock = Some (vectorClock w),
           lastModified = Some (toISOString e (now e)),
           snap_memberCode = memberCode w\<rparr>)"
  by (simp add: getLocalData_def ensure_open_ok and_then_def getAll_each_ok)

lemma merge_types_ok:
  assumes "strategy \<noteq> ''manual''"
  shows "merge_types parse strategy ts localData remoteData merged =
     Inr (fold (\<lambda>t m. Map_set t (projr (mergeCollection parse strategy
             (case Map_get (collections localData) t of None \<Rightarrow> [] | Some xs \<Rightarrow> xs)
             (case Map_get (collections remoteData) t of None \<Rightarrow> [] | Some xs \<Rightarrow> xs) t)) m)
           ts merged)"
proof (induction ts arbitrary: merged)
  case Nil
  show ?case by simp
next
  case (Cons t ts)
  let ?mc = "mergeCollection parse strategy
        (case Map_get (collections localData) t of None \<Rightarrow> [] | Some xs \<Rightarrow> xs)
        (case Map_get (collections remoteData) t of None \<Rightarrow> [] | Some xs \<Rightarrow> xs) t"
  from mergeCollection_returns [OF assms] obtain M where M: "?mc = Inr M" by blast
  show ?case by (simp add: M Cons.IH)
qed

lemma mergeData_ok:
  assumes "conflictResolutionStrategy w \<noteq> ''manual''"
    and "collections localData = map (\<lambda>t. (t, l t)) dataTypes"
  shows "mergeData e localData (Some rd) w =
     (w\<lparr>vectorClock := mergeClocks (vectorClock w)
           (case snap_vectorClock rd of None \<Rightarrow> [] | Some c \<Rightarrow> c)\<rparr>,
      Inr (localData\<lparr>collections :=
             map (\<lambda>t. (t, projr (mergeCollection (parse_date e) (conflictResolutionStrategy w)
                    (l t) (case Map_get (collections rd) t of None \<Rightarrow> [] | Some xs \<Rightarrow> xs) t)))
                 dataTypes,
           snap_vectorClock := Some (mergeClocks (vectorClock w)
             (case snap_vectorClock rd of None \<Rightarrow> [] | Some c \<Rightarrow> c)),
           lastModified := Some (toISOString e (now e))\<rparr>))"
proof -
  have d: "distinct dataTypes" by (simp add: dataTypes_def)
  let ?f = "\<lambda>t. projr (mergeCollection (parse_date e) (conflictResolutionStrategy w)
             (case Map_get (collections localData) t of None \<Rightarrow> [] | Some xs \<Rightarrow> xs)
             (case Map_get (collections rd) t of None \<Rightarrow> [] | Some xs \<Rightarrow> xs) t)"
  have "fold (\<lambda>t m. Map_set t (?f t) m) dataTypes (collections localData)
        = map (\<lambda>k. (k, if k \<in> set dataTypes then ?f k else l k)) dataTypes"
    unfolding assms(2) by (rule fold_Map_set_map [OF subset_refl d])
  also have "\<dots> = map (\<lambda>t. (t, projr (mergeCollection (parse_date e) (conflictResolutionStrategy w)
                    (l t) (case Map_get (collections rd) t of None \<Rightarrow> [] | Some xs \<Rightarrow> xs) t)))
                 dataTypes"
    by (rule map_cong [OF refl]) (simp add: Map_get_def assms(2) map_of_keyed_map)
  finally show ?thesis
    by (simp add: mergeData_def Let_def merge_types_ok [OF assms(1)])
qed

lemma fold_fun_upd:
  "fold (\<lambda>t d. d(t := F t)) ks d0 = (\<lambda>t. if t \<in> set ks then F t else d0 t)"
  by (induction ks arbitrary: d0) (auto simp: fun_eq_iff)

lemma save_entries_ok:
  assumes "\<forall>c. db_result e c = Succeeds" and "db_open w" and "set ks \<subseteq> set stores"
  shows "save_entries e (map (\<lambda>t. (t, m t)) ks) w =
     (w\<lparr>db := fold (\<lambda>t d. d(t := fold db_put (map (prepare e) (m t)) [])) ks (db w)\<rparr>,
      Inr (map (\<lambda>t. (t, map (prepare e) (m t))) ks))"
  using assms(2,3)
proof (induction ks arbitrary: w)
  case Nil
  show ?case by (cases w) simp
next
  case (Cons t ks)
  let ?w = "w\<lparr>db := (db w)(t := fold db_put (map (prepare e) (m t)) [])\<rparr>"
  have t: "t \<in> set stores" and ks: "set ks \<subseteq> set stores" using Cons.prems by simp_all
  have o: "db_open ?w" using Cons.prems by simp
  have one: "and_then (clear e t w) (\<lambda>w _.
          and_then (if m t \<noteq> [] then saveBatch e t (m t) w else (w, Inr (m t))) k)
        = k ?w (map (prepare e) (m t))" for k :: "world \<Rightarrow> item list \<Rightarrow> world \<times> (error + 'b)"
    using assms(1) Cons.prems(1)
    by (simp add: clear_def saveBatch_def ensure_open_def and_then_def)
  have "save_entries e (map (\<lambda>t. (t, m t)) (t # ks)) w
        = and_then (save_entries e (map (\<lambda>t. (t, m t)) ks) ?w)
            (\<lambda>w rest'. (w, Inr ((t, map (prepare e) (m t)) # rest')))"
    using t by (simp add: one)
  then show ?case
    by (simp add: Cons.IH [OF o ks] and_then_Inr)
qed

lemma saveLocalData_ok:
  assumes "\<forall>c. db_result e c = Succeeds" and "db_open w"
    and "collections data = map (\<lambda>t. (t, m t)) dataTypes"
  shows "saveLocalData e data w =
     (w\<lparr>db := (\<lambda>t. if t \<in> set dataTypes then fold db_put (map (prepare e) (m t)) []
                    else db w t)\<rparr>,
      Inr (data\<lparr>collections := map (\<lambda>t. (t, map (prepare e) (m t))) dataTypes\<rparr>))"
proof -
  have s: "set dataTypes \<subseteq> set stores" by (simp add: dataTypes_def stores_def)
  show ?thesis
    using assms(2)
    by (simp add: saveLocalData_def ensure_open_def and_then_def assms(3)
        save_entries_ok [OF assms(1,2) s] fold_fun_upd)
qed

lemma uploadData_ok:
  "gistId w = Some g \<Longrightarrow> fetch_patch e = Response 200 True \<Longrightarrow>
   uploadData e data w =
     (w\<lparr>remote_doc := Some (Doc True (Some (encrypt data (familyCode w))) data)\<rparr>, Inr ())"
  by (simp add: uploadData_def Let_def)

lemma getRemoteData_Inr: "\<exists>r. getRemoteData e w = Inr r"
  by (simp add: getRemoteData_def split: option.splits fetch_outcome.splits document.splits)

lemma getRemoteData_cong:
  "gistId w' = gistId w \<Longrightarrow> remote_doc w' = remote_doc w \<Longrightarrow> familyCode w' = familyCode w
   \<Longrightarrow> getRemoteData e w' = getRemoteData e w"
  by (simp add: getRemoteData_def
      cong: option.case_cong fetch_outcome.case_cong document.case_cong if_cong)

lemma cycle_tail:
  assumes ok: "\<forall>c. db_result e c = Succeeds" and "db_open wc"
    and c: "collections Mg = map (\<lambda>t. (t, m t)) dataTypes"
    and "fetch_patch e = Response 200 True"
  shows "and_then (saveLocalData e Mg wc) (\<lambda>w mergedData.
          and_then (case gistId w of None \<Rightarrow> (w, Inr ())
                    | Some g \<Rightarrow> uploadData e mergedData w) (\<lambda>w _.
            (setSyncStatus e ''success'' (w\<lparr>lastSyncTime := Some (now e)\<rparr>), Inr ())))
     = (setSyncStatus e ''success''
          (wc\<lparr>db := (\<lambda>t. if t \<in> set dataTypes then fold db_put (map (prepare e) (m t)) []
                         else db wc t),
              remote_doc := (case gistId wc of None \<Rightarrow> remote_doc wc
                 | Some g \<Rightarrow> Some (Doc True
                     (Some (encrypt (Mg\<lparr>collections := map (\<lambda>t. (t, map (prepare e) (m t))) dataTypes\<rparr>)
                        (familyCode wc)))
                     (Mg\<lparr>collections := map (\<lambda>t. (t, map (prepare e) (m t))) dataTypes\<rparr>))),
              lastSyncTime := Some (now e)\<rparr>), Inr ())"
proof (cases "gistId wc")
  case None
  then show ?thesis
    by (simp add: saveLocalData_ok [OF ok assms(2) c] and_then_Inr)
next
  case (Some g)
  then show ?thesis
    by (simp add: saveLocalData_ok [OF ok assms(2) c] and_then_Inr uploadData_ok assms(4))
qed

text \<open>
  The state after a cycle that succeeds: the clock merged with the remote one, every
  collection replaced in the local store by its merge, stamped by \<open>saveBatch\<close>, and the
  same snapshot uploaded.
\<close>

lemma syncNow_ok:
  fixes e :: env and w :: world
  defines "R \<equiv> (case gistId w of None \<Rightarrow> None
                 | Some g \<Rightarrow> (case getRemoteData e w of Inr r \<Rightarrow> r | Inl x \<Rightarrow> None))"
  defines "vc \<equiv> (case R of None \<Rightarrow> vectorClock w
                  | Some rd \<Rightarrow> mergeClocks (vectorClock w)
                               (case snap_vectorClock rd of None \<Rightarrow> [] | Some c \<Rightarrow> c))"
  defines "M \<equiv> (\<lambda>t. case R of None \<Rightarrow> db w t
                  | Some rd \<Rightarrow> projr (mergeCollection (parse_date e)
                      (conflictResolutionStrategy w) (db w t)
                      (case Map_get (collections rd) t of None \<Rightarrow> [] | Some xs \<Rightarrow> xs) t))"
  defines "D \<equiv> \<lparr>collections = map (\<lambda>t. (t, map (prepare e) (M t))) dataTypes,
                 snap_vectorClock = Some vc,
                 lastModified = Some (toISOString e (now e)),
                 snap_memberCode = memberCode w\<rparr>"
  assumes idle: "\<not> syncInProgress w" and on: "onLine e"
    and ok: "\<forall>c. db_result e c = Succeeds"
    and patch: "fetch_patch e = Response 200 True"
    and strat: "conflictResolutionStrategy w \<noteq> ''manual''"
  shows "syncNow e w =
     (w\<lparr>syncInProgress := False,
        syncStatus := (if appContext e then Some ''success'' else syncStatus w),
        db_open := True, vectorClock := vc,
        db := (\<lambda>t. if t \<in> set dataTypes then fold db_put (map (prepare e) (M t)) [] else db w t),
        remote_doc := (case gistId w of None \<Rightarrow> remote_doc w
                       | Some g \<Rightarrow> Some (Doc True (Some (encrypt D (familyCode w))) D)),
        lastSyncTime := Some (now e)\<rparr>, Inr ())"
proof -
  let ?wa = "setSyncStatus e ''syncing'' (w\<lparr>syncInProgress := True\<rparr>)"
  let ?wb = "?wa\<lparr>db_open := True\<rparr>"
  let ?L = "\<lparr>collections = map (\<lambda>t. (t, db w t)) dataTypes,
            snap_vectorClock = Some (vectorClock w),
            lastModified = Some (toISOString e (now e)),
            snap_memberCode = memberCode w\<rparr>"
  let ?Mg = "?L\<lparr>collections := map (\<lambda>t. (t, M t)) dataTypes, snap_vectorClock := Some vc\<rparr>"
  let ?wc = "?wb\<lparr>vectorClock := vc\<rparr>"
  have p: "processSyncQueue e ?wa = (?wa, Inr ())"
    by (simp add: processSyncQueue_def setSyncStatus_def)
  have l: "getLocalData e ?wa = (?wb, Inr ?L)"
    by (simp add: getLocalData_ok [OF ok] setSyncStatus_def)
  have g: "getRemoteData e ?wb = getRemoteData e w"
    by (rule getRemoteData_cong) (simp_all add: setSyncStatus_def)
  have gid: "gistId ?wb = gistId w" by (simp add: setSyncStatus_def)
  obtain r where r: "getRemoteData e w = Inr r" using getRemoteData_Inr by blast
  have strat': "conflictResolutionStrategy ?wb \<noteq> ''manual''"
    using strat by (simp add: setSyncStatus_def)
  have Lc: "collections ?L = map (\<lambda>t. (t, db w t)) dataTypes" by simp
  have cycle: "sync_cycle e ?wa =
      and_then (mergeData e ?L R ?wb) (\<lambda>w mergedData.
        and_then (saveLocalData e mergedData w) (\<lambda>w mergedData.
          and_then (case gistId w of None \<Rightarrow> (w, Inr ())
                    | Some g \<Rightarrow> uploadData e mergedData w) (\<lambda>w _.
            (setSyncStatus e ''success'' (w\<lparr>lastSyncTime := Some (now e)\<rparr>), Inr ()))))"
    unfolding sync_cycle_def p and_then_Inr l gid g r R_def
    by (cases "gistId w") (simp_all add: and_then_Inr)
  have m: "mergeData e ?L R ?wb = (?wc, Inr ?Mg)"
  proof (cases R)
    case None
    have "?wc = ?wb" by (cases w) (simp add: vc_def None setSyncStatus_def)
    moreover have "?Mg = ?L" by (simp add: M_def None vc_def)
    ultimately show ?thesis by (simp add: None mergeData_def)
  next
    case (Some rd)
    show ?thesis
      unfolding Some using mergeData_ok [OF strat' Lc, of e rd]
      by (simp add: vc_def M_def Some setSyncStatus_def)
  qed
  have o: "db_open ?wc" by simp
  have Mc: "collections ?Mg = map (\<lambda>t. (t, M t)) dataTypes" by simp
  have c2: "sync_cycle e ?wa =
     (setSyncStatus e ''success''
          (?wc\<lparr>db := (\<lambda>t. if t \<in> set dataTypes then fold db_put (map (prepare e) (M t)) []
                         else db ?wc t),
              remote_doc := (case gistId ?wc of None \<Rightarrow> remote_doc ?wc
                 | Some g \<Rightarrow> Some (Doc True
                     (Some (encrypt (?Mg\<lparr>collections := map (\<lambda>t. (t, map (prepare e) (M t))) dataTypes\<rparr>)
                        (familyCode ?wc)))
                     (?Mg\<lparr>collections := map (\<lambda>t. (t, map (prepare e) (M t))) dataTypes\<rparr>))),
              lastSyncTime := Some (now e)\<rparr>), Inr ())"
    unfolding cycle m and_then_Inr by (rule cycle_tail [OF ok o Mc patch])
  have "syncNow e w = ((fst (sync_cycle e ?wa))\<lparr>syncInProgress := False\<rparr>, Inr ())"
    unfolding c2 using idle on by (simp add: syncNow_def c2)
  also have "\<dots> = (w\<lparr>syncInProgress := False,
        syncStatus := (if appContext e then Some ''success'' else syncStatus w),
        db_open := True, vectorClock := vc,
        db := (\<lambda>t. if t \<in> set dataTypes then fold db_put (map (prepare e) (M t)) [] else db w t),
        remote_doc := (case gistId w of None \<Rightarrow> remote_doc w
                       | Some g \<Rightarrow> Some (Doc True (Some (encrypt D (familyCode w))) D)),
        lastSyncTime := Some (now e)\<rparr>, Inr ())"
    unfolding c2 by (cases "gistId w") (simp_all add: setSyncStatus_def D_def cong: if_cong)
  finally show ?thesis .
qed

section \<open>Properties of overlapping calls\<close>

text \<open>No method the cycle or the drain awaits assigns the flag.\<close>

lemma and_then_keeps:
  assumes "syncInProgress (fst r) = b"
    and "\<And>w x. syncInProgress w = b \<Longrightarrow> syncInProgress (fst (k w x)) = b"
  shows "syncInProgress (fst (and_then r k)) = b"
  using assms by (cases r; cases "snd r") (auto simp: and_then_def)

lemma keeps_ensure_open: "syncInProgress (fst (ensure_open e w)) = syncInProgress w"
  by (simp add: ensure_open_def db_init_def split: db_outcome.splits)

lemma keeps_getAll: "syncInProgress (fst (getAll e t w)) = syncInProgress w"
  unfolding getAll_def
  by (rule and_then_keeps [OF keeps_ensure_open]) (simp split: db_outcome.splits)

lemma keeps_getAll_each: "syncInProgress (fst (getAll_each e ts w)) = syncInProgress w"
proof (induction ts arbitrary: w)
  case Nil
  show ?case by simp
next
  case (Cons t ts)
  show ?case
    unfolding getAll_each.simps
    by (rule and_then_keeps [OF keeps_getAll], rule and_then_keeps) (simp_all add: Cons.IH)
qed

lemma keeps_getLocalData: "syncInProgress (fst (getLocalData e w)) = syncInProgress w"
  unfolding getLocalData_def
  by (rule and_then_keeps [OF keeps_ensure_open], rule and_then_keeps)
     (simp_all add: keeps_getAll_each)

lemma keeps_mergeData: "syncInProgress (fst (mergeData e l r w)) = syncInProgress w"
  by (simp add: mergeData_def Let_def split: option.splits sum.splits)

lemma keeps_clear: "syncInProgress (fst (clear e t w)) = syncInProgress w"
  unfolding clear_def
  by (rule and_then_keeps [OF keeps_ensure_open]) (simp split: db_outcome.splits)

lemma keeps_saveBatch: "syncInProgress (fst (saveBatch e t xs w)) = syncInProgress w"
  unfolding saveBatch_def
  by (rule and_then_keeps [OF keeps_ensure_open]) (simp split: db_outcome.splits)

lemma keeps_save_entries: "syncInProgress (fst (save_entries e cs w)) = syncInProgress w"
proof (induction cs arbitrary: w)
  case Nil
  show ?case by simp
next
  case (Cons c cs)
  obtain t xs where c: "c = (t, xs)" by (cases c)
  show ?case
  proof (cases "t \<in> set stores")
    case True
    have "syncInProgress (fst (and_then (clear e t w) (\<lambda>w _.
          and_then (if xs \<noteq> [] then saveBatch e t xs w else (w, Inr xs)) (\<lambda>w items'.
            and_then (save_entries e cs w) (\<lambda>w rest'. (w, Inr ((t, items') # rest')))))))
          = syncInProgress w"
      by (rule and_then_keeps [OF keeps_clear], rule and_then_keeps, simp add: keeps_saveBatch,
          rule and_then_keeps) (simp_all add: Cons.IH)
    with True show ?thesis by (simp add: c)
  next
    case False
    have "syncInProgress (fst (and_then (save_entries e cs w)
            (\<lambda>w rest'. (w, Inr ((t, xs) # rest'))))) = syncInProgress w"
      by (rule and_then_keeps) (simp_all add: Cons.IH)
    with False show ?thesis by (simp add: c)
  qed
qed

lemma keeps_saveLocalData: "syncInProgress (fst (saveLocalData e m w)) = syncInProgress w"
  unfolding saveLocalData_def
  by (rule and_then_keeps [OF keeps_ensure_open], rule and_then_keeps)
     (simp_all add: keeps_save_entries)

lemma keeps_uploadData: "syncInProgress (fst (uploadData e m w)) = syncInProgress w"
  by (simp add: uploadData_def Let_def split: option.splits fetch_outcome.splits)

lemma keeps_delete_syncQueue: "syncInProgress (fst (delete_syncQueue e k w)) = syncInProgress w"
  unfolding delete_syncQueue_def
  by (rule and_then_keeps [OF keeps_ensure_open]) (simp split: db_outcome.splits)

lemma keeps_syncOperation: "syncInProgress (fst (syncOperation e r w)) = syncInProgress w"
  by (simp add: syncOperation_def Let_def split: option.splits)

lemma keeps_attempt_op: "syncInProgress (fst (attempt_op e r w)) = syncInProgress w"
  unfolding attempt_op_def
  by (rule and_then_keeps [OF keeps_syncOperation])
     (simp add: Let_def remove_op_def keeps_delete_syncQueue)

lemma keeps_process_op: "syncInProgress (process_op e r w) = syncInProgress w"
  using keeps_attempt_op [of e r w]
  by (cases "attempt_op e r w"; cases "snd (attempt_op e r w)")
     (auto simp: process_op_def Let_def remove_op_def)

text \<open>A step that is not the last keeps the flag; the last step clears it.\<close>

lemma keeps_op_failed: "syncInProgress (op_failed r err w) = syncInProgress w"
  by (simp add: op_failed_def Let_def remove_op_def)

lemma advance_holds:
  assumes "syncInProgress w" and "advance e a w = (w1, Some a1)"
  shows "syncInProgress w1"
proof (cases "(e, a, w)" rule: advance.cases)
  case (1 e' w')
  with assms show ?thesis by simp
next
  case (2 e' r rs w')
  with assms keeps_syncOperation [of e r w] show ?thesis by (auto split: prod.splits)
next
  case (3 e' r u rs w')
  with assms show ?thesis by (auto simp: Let_def remove_op_def split: if_splits)
next
  case (4 e' r err rs w')
  with assms show ?thesis by (auto simp: keeps_op_failed)
next
  case (5 e' r rs w')
  with assms keeps_delete_syncQueue [of e "op_id (ops w r)" w] show ?thesis
    by (auto simp: keeps_op_failed split: prod.splits sum.splits)
next
  case (6 e' w')
  with assms show ?thesis
    by (auto simp: processSyncQueue_def caught_def)
next
  case (7 e' w')
  with assms keeps_getLocalData [of e w] show ?thesis
    by (auto simp: caught_def split: prod.splits sum.splits)
next
  case (8 e' l w')
  with assms show ?thesis by (auto simp: caught_def split: sum.splits)
next
  case (9 e' l r w')
  with assms keeps_mergeData [of e l r w] show ?thesis
    by (auto simp: caught_def split: prod.splits sum.splits)
next
  case (10 e' m w')
  with assms keeps_saveLocalData [of e m w] show ?thesis
    by (auto simp: caught_def split: prod.splits sum.splits)
next
  case (11 e' m w')
  with assms show ?thesis by (auto simp: caught_def split: prod.splits sum.splits)
qed

lemma advance_releases:
  assumes "advance e a w = (w1, None)"
  shows "\<not> syncInProgress w1"
  using assms
  by (cases "(e, a, w)" rule: advance.cases)
     (auto simp: caught_def Let_def split: prod.splits sum.splits if_splits)

text \<open>
  Run to the end without interruption, the steps of a drain and of a cycle are
  \<^verbatim>\<open>processSyncQueue\<close> and \<^verbatim>\<open>syncNow\<close>.
\<close>

lemma process_op_steps:
  "process_op e r w =
     (case syncOperation e r w of
        (w1, Inl err) \<Rightarrow> op_failed r err w1
      | (w1, Inr u) \<Rightarrow>
          (let w2 = w1\<lparr>ops := (ops w1)(r := (ops w1 r)\<lparr>status := ''completed''\<rparr>)\<rparr>;
               w3 = remove_op r w2
           in if db_open w3
              then (case delete_syncQueue e (op_id (ops w3 r)) w3 of
                      (w4, Inr u) \<Rightarrow> w4
                    | (w4, Inl err) \<Rightarrow> op_failed r err w4)
              else w3))"
  by (simp add: process_op_def attempt_op_def and_then_def op_failed_def Let_def
      split: prod.splits sum.splits)

lemma complete_Draining_Nil: "complete e (Draining []) w = w\<lparr>syncInProgress := False\<rparr>"
  by (subst complete.simps) simp

lemma complete_Draining_Cons:
  "complete e (Draining (r # rs)) w =
     (case syncOperation e r w of (w1, res) \<Rightarrow> complete e (Sent r res rs) w1)"
  by (subst complete.simps) (simp split: prod.splits)

lemma complete_Sent_Inl:
  "complete e (Sent r (Inl err) rs) w = complete e (Draining rs) (op_failed r err w)"
  by (subst complete.simps) simp

lemma complete_Sent_Inr:
  "complete e (Sent r (Inr u) rs) w =
     (let w1 = w\<lparr>ops := (ops w)(r := (ops w r)\<lparr>status := ''completed''\<rparr>)\<rparr>;
          w2 = remove_op r w1
      in if db_open w2 then complete e (Deleting r rs) w2 else complete e (Draining rs) w2)"
  by (subst complete.simps) (simp add: Let_def)

lemma complete_Deleting:
  "complete e (Deleting r rs) w =
     (case delete_syncQueue e (op_id (ops w r)) w of
        (w1, Inr u) \<Rightarrow> complete e (Draining rs) w1
      | (w1, Inl err) \<Rightarrow> complete e (Draining rs) (op_failed r err w1))"
  by (subst complete.simps) (simp split: prod.splits sum.splits)

lemma complete_Draining:
  "complete e (Draining rs) w = (fold (process_op e) rs w)\<lparr>syncInProgress := False\<rparr>"
proof (induction rs arbitrary: w)
  case Nil
  show ?case by (simp add: complete_Draining_Nil)
next
  case (Cons r rs)
  show ?case
    by (simp add: complete_Draining_Cons process_op_steps complete_Sent_Inl complete_Sent_Inr
        complete_Deleting Cons.IH Let_def split: prod.splits sum.splits)
qed

lemma processSyncQueue_steps:
  "processSyncQueue e w =
     (case call_processSyncQueue e w of
        (w1, None) \<Rightarrow> (w1, Inr ())
      | (w1, Some a) \<Rightarrow> (complete e a w1, Inr ()))"
  by (simp add: processSyncQueue_def call_processSyncQueue_def Let_def complete_Draining)

lemma complete_upload:
  "complete e (Cycle_upload m) w =
     settle e (and_then (case gistId w of None \<Rightarrow> (w, Inr ()) | Some g \<Rightarrow> uploadData e m w)
       (\<lambda>w u. (setSyncStatus e ''success'' (w\<lparr>lastSyncTime := Some (now e)\<rparr>), Inr ())))"
  by (subst complete.simps)
     (simp add: settle_def and_then_def caught_def split: prod.splits sum.splits)

lemma complete_step:
  assumes "\<And>w1 x. complete e (after x) w1 = settle e (k w1 x)"
    and "advance e a w = (case r of (w1, Inr x) \<Rightarrow> (w1, Some (after x))
                          | (w1, Inl err) \<Rightarrow> caught e w1)"
  shows "complete e a w = settle e (and_then r k)"
proof (cases r)
  case (Pair w1 res)
  show ?thesis
  proof (cases res)
    case (Inl err)
    with Pair assms(2) have "advance e a w = caught e w1" by simp
    then have "complete e a w = (setSyncStatus e ''error'' w1)\<lparr>syncInProgress := False\<rparr>"
      by (subst complete.simps) (simp add: caught_def)
    with Pair Inl show ?thesis by (simp add: and_then_def settle_def)
  next
    case (Inr x)
    with Pair assms(2) have "advance e a w = (w1, Some (after x))" by simp
    then have "complete e a w = complete e (after x) w1"
      by (subst complete.simps) simp
    with Pair Inr assms(1) show ?thesis by (simp add: and_then_def)
  qed
qed

lemma complete_save:
  "complete e (Cycle_save m) w =
     settle e (and_then (saveLocalData e m w) (\<lambda>w m'.
       and_then (case gistId w of None \<Rightarrow> (w, Inr ()) | Some g \<Rightarrow> uploadData e m' w)
         (\<lambda>w u. (setSyncStatus e ''success'' (w\<lparr>lastSyncTime := Some (now e)\<rparr>), Inr ()))))"
  by (rule complete_step [where after = Cycle_upload]) (simp_all add: complete_upload)

lemma complete_merge:
  "complete e (Cycle_merge l r) w =
     settle e (and_then (mergeData e l r w) (\<lambda>w m.
       and_then (saveLocalData e m w) (\<lambda>w m'.
         and_then (case gistId w of None \<Rightarrow> (w, Inr ()) | Some g \<Rightarrow> uploadData e m' w)
           (\<lambda>w u. (setSyncStatus e ''success'' (w\<lparr>lastSyncTime := Some (now e)\<rparr>), Inr ())))))"
  by (rule complete_step [where after = Cycle_save]) (simp_all add: complete_save)

lemma complete_remote:
  "complete e (Cycle_remote l) w =
     settle e (and_then (case gistId w of None \<Rightarrow> (w, Inr None)
                         | Some g \<Rightarrow> (w, getRemoteData e w)) (\<lambda>w r.
       and_then (mergeData e l r w) (\<lambda>w m.
         and_then (saveLocalData e m w) (\<lambda>w m'.
           and_then (case gistId w of None \<Rightarrow> (w, Inr ()) | Some g \<Rightarrow> uploadData e m' w)
             (\<lambda>w u. (setSyncStatus e ''success'' (w\<lparr>lastSyncTime := Some (now e)\<rparr>), Inr ()))))))"
proof (rule complete_step [where after = "Cycle_merge l"])
  show "advance e (Cycle_remote l) w =
      (case (case gistId w of None \<Rightarrow> (w, Inr None) | Some g \<Rightarrow> (w, getRemoteData e w)) of
         (w1, Inr x) \<Rightarrow> (w1, Some (Cycle_merge l x))
       | (w1, Inl err) \<Rightarrow> caught e w1)"
    by (simp split: option.splits sum.splits)
qed (simp add: complete_merge)

lemma complete_local:
  "complete e Cycle_local w =
     settle e (and_then (getLocalData e w) (\<lambda>w l.
       and_then (case gistId w of None \<Rightarrow> (w, Inr None)
                 | Some g \<Rightarrow> (w, getRemoteData e w)) (\<lambda>w r.
         and_then (mergeData e l r w) (\<lambda>w m.
           and_then (saveLocalData e m w) (\<lambda>w m'.
             and_then (case gistId w of None \<Rightarrow> (w, Inr ()) | Some g \<Rightarrow> uploadData e m' w)
               (\<lambda>w u. (setSyncStatus e ''success'' (w\<lparr>lastSyncTime := Some (now e)\<rparr>), Inr ())))))))"
  by (rule complete_step [where after = Cycle_remote]) (simp_all add: complete_remote)

lemma complete_cycle: "complete e Cycle_drain w = settle e (sync_cycle e w)"
  unfolding sync_cycle_def
  by (rule complete_step [where after = "\<lambda>u. Cycle_local"]) (simp_all add: complete_local)

lemma syncNow_steps:
  "syncNow e w =
     (case call_syncNow e w of
        (w1, None) \<Rightarrow> (w1, Inr ())
      | (w1, Some a) \<Rightarrow> (complete e a w1, Inr ()))"
  by (simp add: syncNow_def call_syncNow_def complete_cycle settle_def
      split: prod.splits sum.splits)

text \<open>Every event keeps the flag in step with the calls that are running.\<close>

lemma occur_invariant:
  assumes "length running \<le> 1" and "syncInProgress w = (running \<noteq> [])"
    and "occur ev (w, running) = (w1, running1)"
  shows "length running1 \<le> 1 \<and> syncInProgress w1 = (running1 \<noteq> [])"
proof (cases ev)
  case (Call_syncNow e)
  with assms show ?thesis
    by (auto simp: call_syncNow_def setSyncStatus_def split: if_splits)
next
  case (Call_processSyncQueue e)
  with assms show ?thesis
    by (auto simp: call_processSyncQueue_def Let_def split: if_splits)
next
  case (Resume e i)
  show ?thesis
  proof (cases "i < length running")
    case False
    with assms Resume show ?thesis by simp
  next
    case True
    with assms(1) obtain a where r: "running = [a]" and i: "i = 0"
      by (cases running) auto
    with assms(2) have f: "syncInProgress w" by simp
    obtain w2 n where adv: "advance e a w = (w2, n)" by (cases "advance e a w")
    show ?thesis
    proof (cases n)
      case None
      with adv assms(3) Resume r i advance_releases [of e a w w2] show ?thesis by simp
    next
      case (Some a1)
      with adv assms(3) Resume r i advance_holds [OF f, of e a w2 a1] show ?thesis by auto
    qed
  qed
qed

lemma schedule_invariant:
  assumes "\<not> syncInProgress w0"
  shows "schedule events w0 = (w, running)
     \<Longrightarrow> length running \<le> 1 \<and> syncInProgress w = (running \<noteq> [])"
proof (induction events arbitrary: w running rule: rev_induct)
  case Nil
  with assms show ?case by (simp add: schedule_def)
next
  case (snoc ev events)
  obtain w1 r1 where s: "schedule events w0 = (w1, r1)" by (cases "schedule events w0")
  from snoc.IH [OF s] have inv: "length r1 \<le> 1" "syncInProgress w1 = (r1 \<noteq> [])" by simp_all
  from snoc.prems s have "occur ev (w1, r1) = (w, running)" by (simp add: schedule_def)
  from occur_invariant [OF inv this] show ?case .
qed

text \<open>
  C7. In every schedule of calls of \<^verbatim>\<open>syncNow\<close>, calls of \<^verbatim>\<open>processSyncQueue\<close> and
  steps of the calls that have started, at most one cycle or drain is running at any
  moment, and the flag \<^verbatim>\<open>syncInProgress\<close> is set exactly while one is running: the call
  that starts sets it before its first \<^verbatim>\<open>await\<close>, every step keeps it, and the last step
  clears it. A call of \<^verbatim>\<open>syncNow\<close> or of \<^verbatim>\<open>processSyncQueue\<close> made while the flag is set
  returns at once and leaves the whole state (queue, clock, local store, remote document)
  as it is; it starts nothing and is not remembered. The two functions are the steps of
  their calls, run to the end without interruption.
\<close>

theorem busy_calls_are_dropped:
  assumes "\<not> syncInProgress w0" and "schedule events w0 = (w, running)"
  shows "length running \<le> 1
       \<and> syncInProgress w = (running \<noteq> [])
       \<and> (\<forall>v. syncInProgress v \<longrightarrow>
              syncNow e v = (v, Inr ()) \<and> processSyncQueue e v = (v, Inr ()))
       \<and> (running \<noteq> [] \<longrightarrow>
              occur (Call_syncNow e) (w, running) = (w, running)
            \<and> occur (Call_processSyncQueue e) (w, running) = (w, running))
       \<and> (\<forall>v. syncNow e v =
              (case call_syncNow e v of
                 (w1, None) \<Rightarrow> (w1, Inr ())
               | (w1, Some a) \<Rightarrow> (complete e a w1, Inr ())))
       \<and> (\<forall>v. processSyncQueue e v =
              (case call_processSyncQueue e v of
                 (w1, None) \<Rightarrow> (w1, Inr ())
               | (w1, Some a) \<Rightarrow> (complete e a w1, Inr ())))"
proof -
  from schedule_invariant [OF assms] have inv:
    "length running \<le> 1" "syncInProgress w = (running \<noteq> [])" by simp_all
  have guard: "\<forall>v. syncInProgress v \<longrightarrow>
              syncNow e v = (v, Inr ()) \<and> processSyncQueue e v = (v, Inr ())"
    by (simp add: syncNow_def processSyncQueue_def)
  have drop: "running \<noteq> [] \<longrightarrow>
              occur (Call_syncNow e) (w, running) = (w, running)
            \<and> occur (Call_processSyncQueue e) (w, running) = (w, running)"
    using inv(2) by (simp add: call_syncNow_def call_processSyncQueue_def)
  have s1: "\<forall>v. syncNow e v =
              (case call_syncNow e v of
                 (w1, None) \<Rightarrow> (w1, Inr ())
               | (w1, Some a) \<Rightarrow> (complete e a w1, Inr ()))"
    using syncNow_steps by blast
  have s2: "\<forall>v. processSyncQueue e v =
              (case call_processSyncQueue e v of
                 (w1, None) \<Rightarrow> (w1, Inr ())
               | (w1, Some a) \<Rightarrow> (complete e a w1, Inr ()))"
    using processSyncQueue_steps by blast
  show ?thesis by (intro conjI) (fact inv guard drop s1 s2)+
qed

theorem busy_calls_are_dropped_witness:
  "\<not> syncInProgress queued_world
   \<and> schedule [Call_processSyncQueue example_env] queued_world
       = (queued_world\<lparr>syncInProgress := True\<rparr>, [Draining [0]])
   \<and> schedule [Call_processSyncQueue example_env, Call_syncNow example_env,
                Call_processSyncQueue example_env] queued_world
       = (queued_world\<lparr>syncInProgress := True\<rparr>, [Draining [0]])
   \<and> syncQueue (queued_world\<lparr>syncInProgress := True\<rparr>) = [0]
   \<and> syncNow example_env (queued_world\<lparr>syncInProgress := True\<rparr>)
       = (queued_world\<lparr>syncInProgress := True\<rparr>, Inr ())
   \<and> processSyncQueue example_env (queued_world\<lparr>syncInProgress := True\<rparr>)
       = (queued_world\<lparr>syncInProgress := True\<rparr>, Inr ())
   \<and> schedule [Call_processSyncQueue example_env, Call_syncNow example_env,
                Resume example_env 0, Call_processSyncQueue example_env, Resume example_env 0,
                Resume example_env 0, Resume example_env 0] queued_world
       = (fst (processSyncQueue example_env queued_world), [])
   \<and> syncQueue (fst (processSyncQueue example_env queued_world)) = []
   \<and> vectorClock (fst (processSyncQueue example_env queued_world)) = [(''m1'', N 1)]"
proof -
  let ?v = "queued_world\<lparr>syncInProgress := True\<rparr>"
  have idle: "\<not> syncInProgress queued_world"
    by (simp add: queued_world_def example_world_def)
  have s: "schedule [Call_processSyncQueue example_env] queued_world = (?v, [Draining [0]])"
    by (simp add: schedule_def call_processSyncQueue_def Let_def queued_world_def
        example_world_def)
  note t = busy_calls_are_dropped [OF idle s, of example_env]
  from t have busy: "syncInProgress ?v" by simp
  from t have g: "\<forall>v. syncInProgress v \<longrightarrow>
       syncNow example_env v = (v, Inr ()) \<and> processSyncQueue example_env v = (v, Inr ())"
    by (elim conjE)
  from t have dr: "[Draining [0]] \<noteq> [] \<longrightarrow>
       occur (Call_syncNow example_env) (?v, [Draining [0]]) = (?v, [Draining [0]])
     \<and> occur (Call_processSyncQueue example_env) (?v, [Draining [0]]) = (?v, [Draining [0]])"
    by (elim conjE)
  from g busy have guard: "syncNow example_env ?v = (?v, Inr ())"
       "processSyncQueue example_env ?v = (?v, Inr ())"
    by blast+
  from dr have drop:
       "occur (Call_syncNow example_env) (?v, [Draining [0]]) = (?v, [Draining [0]])"
       "occur (Call_processSyncQueue example_env) (?v, [Draining [0]]) = (?v, [Draining [0]])"
    by blast+
  have s3: "schedule [Call_processSyncQueue example_env, Call_syncNow example_env,
                Call_processSyncQueue example_env] queued_world = (?v, [Draining [0]])"
    using s drop by (simp add: schedule_def)
  have q: "syncQueue ?v = [0]" by (simp add: queued_world_def)
  have run: "schedule [Call_processSyncQueue example_env, Call_syncNow example_env,
                Resume example_env 0, Call_processSyncQueue example_env, Resume example_env 0,
                Resume example_env 0, Resume example_env 0] queued_world
       = (fst (processSyncQueue example_env queued_world), [])"
    by (simp add: schedule_def call_processSyncQueue_def call_syncNow_def
        processSyncQueue_def queued_world_def example_world_def example_env_def
        process_op_def attempt_op_def syncOperation_def and_then_def delete_syncQueue_def
        ensure_open_def remove_op_def bump_def Map_get_def Let_def)
  have d: "syncQueue (fst (processSyncQueue example_env queued_world)) = []"
    and c: "vectorClock (fst (processSyncQueue example_env queued_world)) = [(''m1'', N 1)]"
    by (simp_all add: processSyncQueue_def queued_world_def example_world_def example_env_def
        process_op_def attempt_op_def syncOperation_def and_then_def delete_syncQueue_def
        ensure_open_def remove_op_def bump_def Map_get_def Let_def)
  show ?thesis by (intro conjI) (fact idle s s3 q guard run d c)+
qed


section \<open>A cycle whose save fails\<close>

text \<open>
  C8, as amended. A failure to save a queued operation in the local store is propagated
  to the caller of \<^verbatim>\<open>queueOperation\<close>: its promise is rejected with that error. A
  failure to save the merged snapshot inside \<^verbatim>\<open>syncNow\<close> is not propagated: when the
  cycle has read the local data, fetched the remote data and merged them, and
  \<^verbatim>\<open>saveLocalData\<close> raises, the \<^verbatim>\<open>catch\<close> block of \<^verbatim>\<open>syncNow\<close> takes the state the
  failed save left, reports the status \<^verbatim>\<open>'error'\<close> to the host application when there is
  one, the flag is cleared and the promise is fulfilled; nothing is uploaded.
\<close>

theorem queue_save_failure_propagates:
  assumes "db_open w"
    and "db_result e (DbSave ''syncQueue'') = Rejects m \<or> db_result e (DbSave ''syncQueue'') = Throws m"
    and "\<not> syncInProgress w'" and "onLine e'"
    and "getLocalData e' (setSyncStatus e' ''syncing'' (w'\<lparr>syncInProgress := True\<rparr>))
           = (wb, Inr localData)"
    and "remoteData = (case gistId wb of None \<Rightarrow> None
                       | Some g \<Rightarrow> (case getRemoteData e' wb of Inr r \<Rightarrow> r | Inl x \<Rightarrow> None))"
    and "mergeData e' localData remoteData wb = (wc, Inr mergedData)"
    and "saveLocalData e' mergedData wc = (wd, Inl err)"
  shows "snd (queueOperation e payload w) = Inl (Error m)
       \<and> syncNow e' w' = ((setSyncStatus e' ''error'' wd)\<lparr>syncInProgress := False\<rparr>, Inr ())
       \<and> syncStatus (fst (syncNow e' w')) = (if appContext e' then Some ''error'' else syncStatus wd)
       \<and> \<not> syncInProgress (fst (syncNow e' w'))"
proof -
  have q: "snd (queueOperation e payload w) = Inl (Error m)"
    using assms(1,2)
    by (auto simp: queueOperation_def Let_def and_then_def save_syncQueue_def ensure_open_def)
  let ?wa = "setSyncStatus e' ''syncing'' (w'\<lparr>syncInProgress := True\<rparr>)"
  have p: "processSyncQueue e' ?wa = (?wa, Inr ())"
    by (simp add: processSyncQueue_def setSyncStatus_def)
  obtain r where r: "getRemoteData e' wb = Inr r" using getRemoteData_Inr by blast
  have g: "(case gistId wb of None \<Rightarrow> (wb, Inr None) | Some g \<Rightarrow> (wb, getRemoteData e' wb))
           = (wb, Inr remoteData)"
    by (simp add: assms(6) r split: option.splits)
  have c: "sync_cycle e' ?wa = (wd, Inl err)"
    unfolding sync_cycle_def p and_then_Inr assms(5) g assms(7) assms(8)
    by (simp add: and_then_Inl)
  have s: "syncNow e' w' = ((setSyncStatus e' ''error'' wd)\<lparr>syncInProgress := False\<rparr>, Inr ())"
    by (rule syncNow_reports_error [OF assms(3,4) c])
  show ?thesis unfolding s using q by (simp add: setSyncStatus_def)
qed

theorem queue_save_failure_propagates_witness:
  "db_open example_world
   \<and> db_result quota_env (DbSave ''syncQueue'') = Rejects ''QuotaExceededError''
   \<and> snd (saveLocalData quota_env
        \<lparr>collections = map (\<lambda>t. (t, [])) dataTypes, snap_vectorClock = Some [(''m1'', N 0)],
         lastModified = Some ''1970-01-01T00:00:01.000Z'', snap_memberCode = ''m1''\<rparr>
        (example_world\<lparr>syncInProgress := True, syncStatus := Some ''syncing''\<rparr>))
       = Inl (Error ''QuotaExceededError'')
   \<and> snd (queueOperation quota_env (Some ''CREATE'') example_world)
       = Inl (Error ''QuotaExceededError'')
   \<and> snd (syncNow quota_env example_world) = Inr ()
   \<and> syncStatus (fst (syncNow quota_env example_world)) = Some ''error''
   \<and> \<not> syncInProgress (fst (syncNow quota_env example_world))"
proof -
  let ?wa = "example_world\<lparr>syncInProgress := True, syncStatus := Some ''syncing''\<rparr>"
  let ?L = "\<lparr>collections = map (\<lambda>t. (t, [])) dataTypes, snap_vectorClock = Some [(''m1'', N 0)],
         lastModified = Some ''1970-01-01T00:00:01.000Z'', snap_memberCode = ''m1''\<rparr>"
  have o: "db_open example_world"
    and d: "db_result quota_env (DbSave ''syncQueue'') = Rejects ''QuotaExceededError''"
    and i: "\<not> syncInProgress example_world" and n: "onLine quota_env"
    and a: "appContext quota_env"
    by (simp_all add: example_world_def quota_env_def example_env_def)
  have wa: "setSyncStatus quota_env ''syncing'' (example_world\<lparr>syncInProgress := True\<rparr>) = ?wa"
    by (simp add: setSyncStatus_def a)
  have l: "getLocalData quota_env
             (setSyncStatus quota_env ''syncing'' (example_world\<lparr>syncInProgress := True\<rparr>))
           = (?wa, Inr ?L)"
    unfolding wa
    by (simp add: getLocalData_def ensure_open_def and_then_def getAll_def dataTypes_def
        example_world_def quota_env_def example_env_def iso_example_def)
  have r: "None = (case gistId ?wa of None \<Rightarrow> None
             | Some g \<Rightarrow> (case getRemoteData quota_env ?wa of Inr r \<Rightarrow> r | Inl x \<Rightarrow> None))"
    by (simp add: example_world_def)
  have m: "mergeData quota_env ?L None ?wa = (?wa, Inr ?L)" by (simp add: mergeData_def)
  have s: "saveLocalData quota_env ?L ?wa = (?wa, Inl (Error ''QuotaExceededError''))"
    by (simp add: saveLocalData_def ensure_open_def and_then_def dataTypes_def stores_def
        clear_def example_world_def quota_env_def example_env_def)
  from queue_save_failure_propagates [OF o disjI1 [OF d] i n l r m s, of "Some ''CREATE''"]
  show ?thesis using o d s a by (simp add: setSyncStatus_def)
qed


section \<open>Two cycles in a row\<close>

text \<open>
  C6, as amended. Two runs of \<^verbatim>\<open>syncNow\<close> in a row, each on line with the local store
  and the upload succeeding, under a strategy other than \<^verbatim>\<open>'manual'\<close>, on records with
  ids (distinct within each local collection): the second run leaves the vector clock as
  the first run left it, and the local store holds after it the same records in every
  collection, each identical but for \<^verbatim>\<open>updatedAt\<close>, which is the time of the second run.
\<close>

theorem second_sync_only_restamps:
  fixes e1 e2 :: env and w :: world
  assumes idle: "\<not> syncInProgress w"
    and on: "onLine e1" "onLine e2"
    and ok: "\<forall>c. db_result e1 c = Succeeds" "\<forall>c. db_result e2 c = Succeeds"
    and patch: "fetch_patch e1 = Response 200 True" "fetch_patch e2 = Response 200 True"
    and strat: "conflictResolutionStrategy w \<noteq> ''manual''"
    and clock: "distinct (map fst (vectorClock w))"
    and iso: "toISOString e1 (now e1) \<noteq> []"
    and rows: "\<forall>t. distinct (map item_id (db w t)) \<and> (\<forall>x \<in> set (db w t). item_id x \<noteq> [])"
    and remote: "\<forall>rd t xs. getRemoteData e1 w = Inr (Some rd) \<longrightarrow>
                   map_of (collections rd) t = Some xs \<longrightarrow> (\<forall>x \<in> set xs. item_id x \<noteq> [])"
  shows "vectorClock (fst (syncNow e2 (fst (syncNow e1 w)))) = vectorClock (fst (syncNow e1 w))
       \<and> (\<forall>t. db (fst (syncNow e2 (fst (syncNow e1 w)))) t =
              (if t \<in> set dataTypes
               then map (\<lambda>x. x\<lparr>updatedAt := Some (Str (toISOString e2 (now e2)))\<rparr>)
                      (db (fst (syncNow e1 w)) t)
               else db (fst (syncNow e1 w)) t))"
proof -
  define R1 where "R1 = (case gistId w of None \<Rightarrow> None
                 | Some g \<Rightarrow> (case getRemoteData e1 w of Inr r \<Rightarrow> r | Inl x \<Rightarrow> None))"
  define vc1 where "vc1 = (case R1 of None \<Rightarrow> vectorClock w
                  | Some rd \<Rightarrow> mergeClocks (vectorClock w)
                               (case snap_vectorClock rd of None \<Rightarrow> [] | Some c \<Rightarrow> c))"
  define M1 where "M1 = (\<lambda>t. case R1 of None \<Rightarrow> db w t
                  | Some rd \<Rightarrow> projr (mergeCollection (parse_date e1)
                      (conflictResolutionStrategy w) (db w t)
                      (case Map_get (collections rd) t of None \<Rightarrow> [] | Some xs \<Rightarrow> xs) t))"
  define D1 where "D1 = \<lparr>collections = map (\<lambda>t. (t, map (prepare e1) (M1 t))) dataTypes,
                 snap_vectorClock = Some vc1,
                 lastModified = Some (toISOString e1 (now e1)),
                 snap_memberCode = memberCode w\<rparr>"
  define W1 where "W1 = fst (syncNow e1 w)"
  have s1: "syncNow e1 w =
     (w\<lparr>syncInProgress := False,
        syncStatus := (if appContext e1 then Some ''success'' else syncStatus w),
        db_open := True, vectorClock := vc1,
        db := (\<lambda>t. if t \<in> set dataTypes then fold db_put (map (prepare e1) (M1 t)) [] else db w t),
        remote_doc := (case gistId w of None \<Rightarrow> remote_doc w
                       | Some g \<Rightarrow> Some (Doc True (Some (encrypt D1 (familyCode w))) D1)),
        lastSyncTime := Some (now e1)\<rparr>, Inr ())"
    unfolding D1_def M1_def vc1_def R1_def
    by (rule syncNow_ok [OF idle on(1) ok(1) patch(1) strat])
  have f1: "\<not> syncInProgress W1" "conflictResolutionStrategy W1 = conflictResolutionStrategy w"
    "gistId W1 = gistId w" "familyCode W1 = familyCode w" "vectorClock W1 = vc1"
    "db W1 = (\<lambda>t. if t \<in> set dataTypes then fold db_put (map (prepare e1) (M1 t)) [] else db w t)"
    "remote_doc W1 = (case gistId w of None \<Rightarrow> remote_doc w
                       | Some g \<Rightarrow> Some (Doc True (Some (encrypt D1 (familyCode w))) D1))"
    unfolding W1_def s1 by simp_all
  \<comment> \<open>the merged rows of the first run\<close>
  have M1_ok: "distinct (map item_id (M1 t)) \<and> (\<forall>x \<in> set (M1 t). item_id x \<noteq> [])" for t
  proof (cases R1)
    case None
    then show ?thesis using rows by (simp add: M1_def)
  next
    case (Some rd)
    let ?rc = "case Map_get (collections rd) t of None \<Rightarrow> [] | Some xs \<Rightarrow> xs"
    from Some have g: "getRemoteData e1 w = Inr (Some rd)"
      by (auto simp: R1_def split: option.splits sum.splits)
    have rc: "\<forall>x \<in> set ?rc. item_id x \<noteq> []"
    proof (cases "map_of (collections rd) t")
      case None
      then show ?thesis by (simp add: Map_get_def)
    next
      case (Some xs)
      with remote g have "\<forall>x \<in> set xs. item_id x \<noteq> []" by blast
      with Some show ?thesis by (simp add: Map_get_def)
    qed
    from mergeCollection_returns [OF strat, of "parse_date e1" "db w t" ?rc t]
    obtain M where M: "mergeCollection (parse_date e1) (conflictResolutionStrategy w)
         (db w t) ?rc t = Inr M" "distinct (map item_id M)" "set M \<subseteq> set (db w t) \<union> set ?rc"
      by (elim exE conjE)
    have "M1 t = M" by (simp add: M1_def Some M(1))
    moreover have "\<forall>x \<in> set M. item_id x \<noteq> []" using M(3) rc rows by blast
    ultimately show ?thesis using M(2) by simp
  qed
  define P where "P = (\<lambda>t. map (prepare e1) (M1 t))"
  have P_ids: "map item_id (P t) = map item_id (M1 t)" for t
    unfolding P_def using M1_ok [of t] by (simp add: prepare_keeps [OF _ iso])
  have P_ok: "distinct (map item_id (P t))" "\<forall>x \<in> set (P t). item_id x \<noteq> [] \<and> truthy (createdAt x)"
    for t
  proof -
    show "distinct (map item_id (P t))" unfolding P_ids using M1_ok [of t] by simp
    show "\<forall>x \<in> set (P t). item_id x \<noteq> [] \<and> truthy (createdAt x)"
      unfolding P_def using M1_ok [of t] by (auto simp: prepare_keeps [OF _ iso])
  qed
  define St where "St = (\<lambda>t. fold db_put (P t) [])"
  have St_set: "set (St t) = set (P t)" for t
    unfolding St_def using set_fold_db_put [OF P_ok(1) [of t], of "[]"] by simp
  have St_sorted: "sorted (map item_id (St t))" "distinct (map item_id (St t))" for t
    unfolding St_def using sorted_fold_db_put [of "[]" "P t"] by simp_all
  have db1: "db W1 t = (if t \<in> set dataTypes then St t else db w t)" for t
    by (simp add: f1(6) St_def P_def)
  \<comment> \<open>the second run\<close>
  define R2 where "R2 = (case gistId W1 of None \<Rightarrow> None
                 | Some g \<Rightarrow> (case getRemoteData e2 W1 of Inr r \<Rightarrow> r | Inl x \<Rightarrow> None))"
  define vc2 where "vc2 = (case R2 of None \<Rightarrow> vectorClock W1
                  | Some rd \<Rightarrow> mergeClocks (vectorClock W1)
                               (case snap_vectorClock rd of None \<Rightarrow> [] | Some c \<Rightarrow> c))"
  define M2 where "M2 = (\<lambda>t. case R2 of None \<Rightarrow> db W1 t
                  | Some rd \<Rightarrow> projr (mergeCollection (parse_date e2)
                      (conflictResolutionStrategy W1) (db W1 t)
                      (case Map_get (collections rd) t of None \<Rightarrow> [] | Some xs \<Rightarrow> xs) t))"
  define D2 where "D2 = \<lparr>collections = map (\<lambda>t. (t, map (prepare e2) (M2 t))) dataTypes,
                 snap_vectorClock = Some vc2,
                 lastModified = Some (toISOString e2 (now e2)),
                 snap_memberCode = memberCode W1\<rparr>"
  have strat1: "conflictResolutionStrategy W1 \<noteq> ''manual''" using strat f1(2) by simp
  have s2: "syncNow e2 W1 =
     (W1\<lparr>syncInProgress := False,
        syncStatus := (if appContext e2 then Some ''success'' else syncStatus W1),
        db_open := True, vectorClock := vc2,
        db := (\<lambda>t. if t \<in> set dataTypes then fold db_put (map (prepare e2) (M2 t)) [] else db W1 t),
        remote_doc := (case gistId W1 of None \<Rightarrow> remote_doc W1
                       | Some g \<Rightarrow> Some (Doc True (Some (encrypt D2 (familyCode W1))) D2)),
        lastSyncTime := Some (now e2)\<rparr>, Inr ())"
    unfolding D2_def M2_def vc2_def R2_def
    by (rule syncNow_ok [OF f1(1) on(2) ok(2) patch(2) strat1])
  have R2_cases: "R2 = None \<or> R2 = Some D1"
    unfolding R2_def f1(3)
    by (cases "gistId w")
       (auto simp: getRemoteData_def f1 encrypt_def split: fetch_outcome.splits)
  have dvc1: "distinct (map fst vc1)"
    unfolding vc1_def using clock by (cases R1) (simp_all add: distinct_mergeClocks)
  have vc: "vc2 = vc1"
    using R2_cases by (auto simp: vc2_def f1(5) D1_def mergeClocks_idem [OF dvc1])
  have D1_look: "Map_get (collections D1) t = Some (P t)" if "t \<in> set dataTypes" for t
    using that by (simp add: D1_def Map_get_def P_def map_of_keyed_map)
  have M2_eq: "M2 t = St t" if t: "t \<in> set dataTypes" for t
    using R2_cases
  proof
    assume "R2 = None"
    then show ?thesis using t by (simp add: M2_def db1)
  next
    assume r: "R2 = Some D1"
    have "mergeCollection (parse_date e2) (conflictResolutionStrategy W1) (St t) (P t) t
            = Inr (St t)"
      by (rule mergeCollection_same [OF strat1 St_sorted(2)]) (simp add: St_set)
    then show ?thesis using t by (simp add: M2_def r db1 D1_look)
  qed
  have restamp: "fold db_put (map (prepare e2) (St t)) []
        = map (\<lambda>x. x\<lparr>updatedAt := Some (Str (toISOString e2 (now e2)))\<rparr>) (St t)" for t
  proof -
    have p: "map (prepare e2) (St t)
        = map (\<lambda>x. x\<lparr>updatedAt := Some (Str (toISOString e2 (now e2)))\<rparr>) (St t)"
      by (rule map_cong [OF refl]) (use P_ok(2) [of t] St_set [of t] in \<open>simp add: prepare_restamp\<close>)
    have ids: "map item_id (map (\<lambda>x. x\<lparr>updatedAt := Some (Str (toISOString e2 (now e2)))\<rparr>) (St t))
        = map item_id (St t)" by simp
    show ?thesis
      unfolding p using fold_db_put_sorted [of "[]"
          "map (\<lambda>x. x\<lparr>updatedAt := Some (Str (toISOString e2 (now e2)))\<rparr>) (St t)"]
        St_sorted [of t] by (simp add: comp_def)
  qed
  have c1: "vectorClock (fst (syncNow e2 W1)) = vectorClock W1"
    unfolding s2 by (simp add: vc f1(5))
  have c2: "db (fst (syncNow e2 W1)) t =
              (if t \<in> set dataTypes
               then map (\<lambda>x. x\<lparr>updatedAt := Some (Str (toISOString e2 (now e2)))\<rparr>) (db W1 t)
               else db W1 t)" for t
    unfolding s2 by (simp add: M2_eq restamp db1)
  show ?thesis unfolding W1_def [symmetric] using c1 c2 by simp
qed

theorem second_sync_only_restamps_witness:
  "vectorClock (fst (syncNow (example_env\<lparr>now := 2000\<rparr>) (fst (syncNow example_env shared_world))))
     = vectorClock (fst (syncNow example_env shared_world))
   \<and> db (fst (syncNow (example_env\<lparr>now := 2000\<rparr>) (fst (syncNow example_env shared_world))))
        ''transactions''
     = map (\<lambda>x. x\<lparr>updatedAt := Some (Str ''1970-01-01T00:00:02.000Z'')\<rparr>)
         (db (fst (syncNow example_env shared_world)) ''transactions'')"
proof -
  let ?e2 = "example_env\<lparr>now := 2000\<rparr>"
  have idle: "\<not> syncInProgress shared_world"
    and on: "onLine example_env" "onLine ?e2"
    and ok: "\<forall>c. db_result example_env c = Succeeds" "\<forall>c. db_result ?e2 c = Succeeds"
    and patch: "fetch_patch example_env = Response 200 True" "fetch_patch ?e2 = Response 200 True"
    and strat: "conflictResolutionStrategy shared_world \<noteq> ''manual''"
    and clock: "distinct (map fst (vectorClock shared_world))"
    and iso: "toISOString example_env (now example_env) \<noteq> []"
    and rows: "\<forall>t. distinct (map item_id (db shared_world t))
                 \<and> (\<forall>x \<in> set (db shared_world t). item_id x \<noteq> [])"
    by (simp_all add: shared_world_def example_world_def example_env_def iso_example_def)
  have remote: "\<forall>rd t xs. getRemoteData example_env shared_world = Inr (Some rd) \<longrightarrow>
                   map_of (collections rd) t = Some xs \<longrightarrow> (\<forall>x \<in> set xs. item_id x \<noteq> [])"
    by (auto simp: getRemoteData_def shared_world_def example_world_def example_env_def
        split: if_splits)
  from second_sync_only_restamps [OF idle on ok patch strat clock iso rows remote]
  show ?thesis by (simp add: dataTypes_def example_env_def iso_example_def)
qed

text \<open>
  The same two runs, computed: the first stores the remote edit of \<^verbatim>\<open>t1\<close> and the
  remote transaction \<^verbatim>\<open>t2\<close>, stamped with its time; the second stores them again,
  stamped with its own.
\<close>

lemma first_run_rows:
  "db (fst (syncNow example_env shared_world)) ''transactions'' =
     [\<lparr>item_id = ''t1'', updatedAt = Some (Str ''1970-01-01T00:00:01.000Z''),
       createdAt = Some (Str ''1970-01-01T00:00:00.000Z''), content = ''amount: 20''\<rparr>,
      \<lparr>item_id = ''t2'', updatedAt = Some (Str ''1970-01-01T00:00:01.000Z''),
       createdAt = Some (Str ''1970-01-01T00:00:00.000Z''), content = ''amount: 5''\<rparr>]"
  by (simp add: shared_world_def example_world_def example_env_def syncNow_def sync_cycle_def
      setSyncStatus_def and_then_def processSyncQueue_def getLocalData_def ensure_open_def
      dataTypes_def getAll_def getRemoteData_def mergeData_def mergeCollection_def Map_get_def
      resolveConflict_def stamp_def parse_example_def iso_example_def
      saveLocalData_def stores_def clear_def saveBatch_def prepare_def db_put_def
      uploadData_def encrypt_def mergeClocks_def merge_clock_entry_def Let_def)

lemma second_run_rows:
  "db (fst (syncNow (example_env\<lparr>now := 2000\<rparr>) (fst (syncNow example_env shared_world))))
      ''transactions'' =
     [\<lparr>item_id = ''t1'', updatedAt = Some (Str ''1970-01-01T00:00:02.000Z''),
       createdAt = Some (Str ''1970-01-01T00:00:00.000Z''), content = ''amount: 20''\<rparr>,
      \<lparr>item_id = ''t2'', updatedAt = Some (Str ''1970-01-01T00:00:02.000Z''),
       createdAt = Some (Str ''1970-01-01T00:00:00.000Z''), content = ''amount: 5''\<rparr>]"
  by (simp add: shared_world_def example_world_def example_env_def syncNow_def sync_cycle_def
      setSyncStatus_def and_then_def processSyncQueue_def getLocalData_def ensure_open_def
      dataTypes_def getAll_def getRemoteData_def mergeData_def mergeCollection_def Map_get_def
      resolveConflict_def stamp_def parse_example_def iso_example_def
      saveLocalData_def stores_def clear_def saveBatch_def prepare_def db_put_def
      uploadData_def encrypt_def mergeClocks_def merge_clock_entry_def Let_def)

text \<open>
  C6 as the specification states it fails: with an empty queue and nobody else writing
  the remote document, the merged snapshot that the second run stores differs from the one
  the first run stored.
\<close>

theorem second_sync_changes_snapshot:
  "db (fst (syncNow (example_env\<lparr>now := 2000\<rparr>) (fst (syncNow example_env shared_world))))
      ''transactions''
   \<noteq> db (fst (syncNow example_env shared_world)) ''transactions''"
  by (simp add: first_run_rows second_run_rows)

end
